theory Spec2Isabelle
  imports Complex_Main "HOL-Library.Multiset" "HOL-Library.AList" "HOL-Library.Product_Lexorder"
    "HOL-Library.Sublist"
begin

section \<open>Bounding-box merging (parsers/pdf\_parser\_improved.py)\<close>

text \<open>
  A placement rectangle is a \<^verbatim>\<open>fitz.Rect\<close> with the four coordinates
  \<^verbatim>\<open>x0, y0, x1, y1\<close>.  The coordinates are Python floats; they are modelled
  as real numbers, so the rounding of \<^verbatim>\<open>x1 + threshold\<close> is idealised.
\<close>

record rect =
  x0 :: real
  y0 :: real
  x1 :: real
  y1 :: real

text \<open>\<^verbatim>\<open>_is_nearby(bbox1, bbox2, threshold)\<close>.\<close>

definition is_nearby :: "rect \<Rightarrow> rect \<Rightarrow> real \<Rightarrow> bool" where
  "is_nearby bbox1 bbox2 threshold =
     (let x_overlap = \<not> (x1 bbox1 + threshold < x0 bbox2 \<or> x1 bbox2 + threshold < x0 bbox1);
          y_overlap = \<not> (y1 bbox1 + threshold < y0 bbox2 \<or> y1 bbox2 + threshold < y0 bbox1)
      in x_overlap \<and> y_overlap)"

text \<open>
  The rectangle built at the merge:
  \<^verbatim>\<open>fitz.Rect(min(x0, x0'), min(y0, y0'), max(x1, x1'), max(y1, y1'))\<close>.
\<close>

definition union_rect :: "rect \<Rightarrow> rect \<Rightarrow> rect" where
  "union_rect a b =
     \<lparr>x0 = min (x0 a) (x0 b), y0 = min (y0 a) (y0 b),
      x1 = max (x1 a) (x1 b), y1 = max (y1 a) (y1 b)\<rparr>"

text \<open>
  The inner loop \<^verbatim>\<open>for j in range(i + 1, len(merged))\<close> of one scan.  Its state is
  the running union \<^verbatim>\<open>current_bbox\<close>, the set \<^verbatim>\<open>used\<close> of consumed indices
  and the flag \<^verbatim>\<open>changed\<close>.
\<close>

fun inner_loop ::
  "rect list \<Rightarrow> real \<Rightarrow> nat list \<Rightarrow> rect \<Rightarrow> nat set \<Rightarrow> bool \<Rightarrow> rect \<times> nat set \<times> bool" where
  "inner_loop merged t [] current_bbox used changed = (current_bbox, used, changed)"
| "inner_loop merged t (j # js) current_bbox used changed =
     (if j \<in> used then inner_loop merged t js current_bbox used changed
      else
        let bbox2 = merged ! j in
        if is_nearby current_bbox bbox2 t
        then inner_loop merged t js (union_rect current_bbox bbox2) (insert j used) True
        else inner_loop merged t js current_bbox used changed)"

text \<open>
  The outer loop \<^verbatim>\<open>for i, bbox1 in enumerate(merged)\<close>, over the list of the
  indices still to visit; \<^verbatim>\<open>new_merged\<close> grows at its end.
\<close>

fun outer_loop ::
  "rect list \<Rightarrow> real \<Rightarrow> nat list \<Rightarrow> rect list \<Rightarrow> nat set \<Rightarrow> bool \<Rightarrow> rect list \<times> bool" where
  "outer_loop merged t [] new_merged used changed = (new_merged, changed)"
| "outer_loop merged t (i # is) new_merged used changed =
     (if i \<in> used then outer_loop merged t is new_merged used changed
      else
        case inner_loop merged t [Suc i ..< length merged] (merged ! i) used changed of
          (current_bbox, used', changed') \<Rightarrow>
            outer_loop merged t is (new_merged @ [current_bbox]) (insert i used') changed')"

text \<open>One execution of the body of \<^verbatim>\<open>while changed\<close>: the new list and the flag.\<close>

definition merge_pass :: "rect list \<Rightarrow> real \<Rightarrow> rect list \<times> bool" where
  "merge_pass merged t = outer_loop merged t [0 ..< length merged] [] {} False"

subsection \<open>The scan as a function on lists\<close>

text \<open>
  The same scan without indices: \<open>absorb\<close> runs the inner loop over the entries
  that are still unconsumed and returns the running union with the entries it left;
  \<open>pass_list\<close> is the outer loop.  They are proved equal to the loops above and carry
  the proofs.
\<close>

fun absorb :: "rect \<Rightarrow> rect list \<Rightarrow> real \<Rightarrow> rect \<times> rect list" where
  "absorb cur [] t = (cur, [])"
| "absorb cur (b # bs) t =
     (if is_nearby cur b t then absorb (union_rect cur b) bs t
      else (fst (absorb cur bs t), b # snd (absorb cur bs t)))"

lemma absorb_length: "length (snd (absorb cur bs t)) \<le> length bs"
proof (induction bs arbitrary: cur)
  case Nil
  show ?case by simp
next
  case (Cons b bs)
  show ?case
  proof (cases "is_nearby cur b t")
    case True
    with Cons [of "union_rect cur b"] show ?thesis by simp
  next
    case False
    with Cons [of cur] show ?thesis by simp
  qed
qed

function pass_list :: "rect list \<Rightarrow> real \<Rightarrow> rect list" where
  "pass_list [] t = []"
| "pass_list (b # bs) t = fst (absorb b bs t) # pass_list (snd (absorb b bs t)) t"
  by pat_completeness auto
termination
  by (relation "measure (\<lambda>(bs, t). length bs)") (auto simp: absorb_length less_Suc_eq_le)


text \<open>
  The entries of \<open>merged\<close> at the indices \<open>js\<close> that are not in \<open>used\<close>: what the
  loops still see.
\<close>

definition alive :: "rect list \<Rightarrow> nat set \<Rightarrow> nat list \<Rightarrow> rect list" where
  "alive merged U js = map ((!) merged) (filter (\<lambda>j. j \<notin> U) js)"

lemma alive_Nil [simp]: "alive merged U [] = []"
  by (simp add: alive_def)

lemma alive_Cons:
  "alive merged U (j # js) = (if j \<in> U then alive merged U js else merged ! j # alive merged U js)"
  by (simp add: alive_def)

lemma alive_insert_fresh: "j \<notin> set js \<Longrightarrow> alive merged (insert j U) js = alive merged U js"
  by (simp add: alive_def) (metis (mono_tags, lifting) filter_cong)

lemma alive_mono_length: "U \<subseteq> U' \<Longrightarrow> length (alive merged U' js) \<le> length (alive merged U js)"
  by (induction js) (auto simp: alive_Cons le_SucI)

lemma inner_loop_absorb:
  "distinct js \<Longrightarrow> inner_loop merged t js cur U ch = (c, U', ch') \<Longrightarrow>
     absorb cur (alive merged U js) t = (c, alive merged U' js) \<and> U \<subseteq> U' \<and> U' \<subseteq> U \<union> set js
     \<and> (ch' \<longleftrightarrow> ch \<or> length (alive merged U' js) < length (alive merged U js))"
proof (induction js arbitrary: cur U ch)
  case Nil
  then show ?case by simp
next
  case (Cons j js)
  from Cons.prems have dj: "distinct js" and jn: "j \<notin> set js" by simp_all
  show ?case
  proof (cases "j \<in> U")
    case True
    with Cons.prems have "inner_loop merged t js cur U ch = (c, U', ch')" by simp
    from Cons.IH [OF dj this] True show ?thesis by (auto simp: alive_Cons)
  next
    case False
    show ?thesis
    proof (cases "is_nearby cur (merged ! j) t")
      case True
      with False Cons.prems
      have "inner_loop merged t js (union_rect cur (merged ! j)) (insert j U) True = (c, U', ch')"
        by simp
      from Cons.IH [OF dj this]
      have a: "absorb (union_rect cur (merged ! j)) (alive merged (insert j U) js) t = (c, alive merged U' js)"
        and s: "insert j U \<subseteq> U'" "U' \<subseteq> insert j U \<union> set js" and c: "ch'" by simp_all
      have e: "alive merged (insert j U) js = alive merged U js"
        using jn by (rule alive_insert_fresh)
      have "length (alive merged U' js) \<le> length (alive merged U js)"
        using s(1) by (intro alive_mono_length) auto
      with a s c e True False show ?thesis by (auto simp: alive_Cons)
    next
      case nn: False
      with False Cons.prems have "inner_loop merged t js cur U ch = (c, U', ch')" by simp
      from Cons.IH [OF dj this]
      have a: "absorb cur (alive merged U js) t = (c, alive merged U' js)"
        and s: "U \<subseteq> U'" "U' \<subseteq> U \<union> set js"
        and c: "ch' \<longleftrightarrow> ch \<or> length (alive merged U' js) < length (alive merged U js)" by simp_all
      from s jn False have "j \<notin> U'" by auto
      with a s c nn False show ?thesis by (auto simp: alive_Cons)
    qed
  qed
qed

lemma pass_list_length: "length (pass_list bs t) \<le> length bs"
proof (induction bs t rule: pass_list.induct)
  case (1 t)
  show ?case by simp
next
  case (2 b bs t)
  have "length (snd (absorb b bs t)) \<le> length bs" by (rule absorb_length)
  with 2 show ?case by simp
qed

lemma outer_loop_pass:
  "i \<le> length merged \<Longrightarrow>
   outer_loop merged t [i ..< length merged] new U ch =
     (new @ pass_list (alive merged U [i ..< length merged]) t,
      ch \<or> length (pass_list (alive merged U [i ..< length merged]) t)
             < length (alive merged U [i ..< length merged]))"
proof (induction "length merged - i" arbitrary: i new U ch)
  case 0
  then show ?case by simp
next
  case (Suc k)
  then have lt: "i < length merged" and k: "k = length merged - Suc i" and le: "Suc i \<le> length merged"
    by simp_all
  have up: "[i ..< length merged] = i # [Suc i ..< length merged]"
    using lt by (rule upt_conv_Cons)
  show ?case
  proof (cases "i \<in> U")
    case True
    then show ?thesis using Suc.hyps(1) [OF k le] by (simp add: up alive_Cons)
  next
    case False
    obtain c U' ch' where il: "inner_loop merged t [Suc i ..< length merged] (merged ! i) U ch = (c, U', ch')"
      by (cases "inner_loop merged t [Suc i ..< length merged] (merged ! i) U ch") auto
    from inner_loop_absorb [OF _ il]
    have a: "absorb (merged ! i) (alive merged U [Suc i ..< length merged]) t
               = (c, alive merged U' [Suc i ..< length merged])"
      and s: "U \<subseteq> U'"
      and c: "ch' \<longleftrightarrow> ch \<or> length (alive merged U' [Suc i ..< length merged])
                               < length (alive merged U [Suc i ..< length merged])"
      by simp_all
    have e: "alive merged (insert i U') [Suc i ..< length merged] = alive merged U' [Suc i ..< length merged]"
      by (rule alive_insert_fresh) simp
    have l1: "length (alive merged U' [Suc i ..< length merged]) \<le> length (alive merged U [Suc i ..< length merged])"
      using s by (rule alive_mono_length)
    have l2: "length (pass_list (alive merged U' [Suc i ..< length merged]) t)
               \<le> length (alive merged U' [Suc i ..< length merged])"
      by (rule pass_list_length)
    show ?thesis
      using False il a c e l1 l2 Suc.hyps(1) [OF k le, of "new @ [c]" "insert i U'" ch']
      by (auto simp: up alive_Cons)
  qed
qed

lemma alive_empty: "alive merged {} [0 ..< length merged] = merged"
  by (simp add: alive_def map_nth)

lemma merge_pass_eq:
  "merge_pass merged t = (pass_list merged t, length (pass_list merged t) < length merged)"
  using outer_loop_pass [of 0 merged t "[]" "{}" False]
  by (simp add: merge_pass_def alive_empty)

text \<open>
  The loop \<^verbatim>\<open>while changed\<close>: a scan that absorbed something is followed by another
  scan of the shorter list; the first scan that absorbs nothing ends the loop.
\<close>

function merge_loop :: "rect list \<Rightarrow> real \<Rightarrow> rect list" where
  "merge_loop merged t =
     (case merge_pass merged t of
        (new_merged, changed) \<Rightarrow> if changed then merge_loop new_merged t else new_merged)"
  by pat_completeness auto
termination
  by (relation "measure (\<lambda>(merged, t). length merged)") (auto simp: merge_pass_eq)

declare merge_loop.simps [simp del]

text \<open>\<^verbatim>\<open>_merge_nearby_bboxes(bboxes, threshold)\<close>; the source's default threshold is 80.\<close>

definition merge_nearby_bboxes :: "rect list \<Rightarrow> real \<Rightarrow> rect list" where
  "merge_nearby_bboxes bboxes threshold = (if bboxes = [] then [] else merge_loop bboxes threshold)"

subsection \<open>Scans that absorb nothing\<close>

lemma is_nearby_sym: "is_nearby a b t \<longleftrightarrow> is_nearby b a t"
  by (auto simp: is_nearby_def)

text \<open>No rectangle of the list is near a later one.\<close>

abbreviation apart :: "real \<Rightarrow> rect list \<Rightarrow> bool" where
  "apart t bs \<equiv> sorted_wrt (\<lambda>a b. \<not> is_nearby a b t) bs"

lemma absorb_unchanged:
  "length (snd (absorb cur bs t)) = length bs \<longleftrightarrow> (\<forall>b\<in>set bs. \<not> is_nearby cur b t)"
proof (induction bs arbitrary: cur)
  case Nil
  show ?case by simp
next
  case (Cons b bs)
  show ?case
  proof (cases "is_nearby cur b t")
    case True
    have "length (snd (absorb (union_rect cur b) bs t)) \<le> length bs" by (rule absorb_length)
    with True show ?thesis by auto
  next
    case False
    with Cons [of cur] show ?thesis by simp
  qed
qed

lemma absorb_id: "\<forall>b\<in>set bs. \<not> is_nearby cur b t \<Longrightarrow> absorb cur bs t = (cur, bs)"
  by (induction bs) auto

lemma pass_list_unchanged:
  "length (pass_list bs t) = length bs \<longleftrightarrow> apart t bs"
proof (induction bs t rule: pass_list.induct)
  case (1 t)
  show ?case by simp
next
  case (2 b bs t)
  let ?rest = "snd (absorb b bs t)"
  have l1: "length ?rest \<le> length bs" by (rule absorb_length)
  have l2: "length (pass_list ?rest t) \<le> length ?rest" by (rule pass_list_length)
  show ?case
  proof (cases "\<forall>c\<in>set bs. \<not> is_nearby b c t")
    case True
    then have "absorb b bs t = (b, bs)" by (rule absorb_id)
    with 2 True show ?thesis by simp
  next
    case False
    then have "length ?rest \<noteq> length bs" by (simp add: absorb_unchanged)
    with l1 l2 False show ?thesis by auto
  qed
qed

lemma pass_list_id: "apart t bs \<Longrightarrow> pass_list bs t = bs"
  by (induction bs) (auto simp: absorb_id)

lemma merge_loop_apart: "apart t (merge_loop bs t)"
proof (induction bs t rule: merge_loop.induct)
  case (1 merged t)
  show ?case
  proof (cases "length (pass_list merged t) < length merged")
    case True
    with 1 [of "pass_list merged t" True] show ?thesis
      by (subst merge_loop.simps) (simp add: merge_pass_eq)
  next
    case False
    with pass_list_length [of merged t] have "length (pass_list merged t) = length merged" by simp
    then have a: "apart t merged" by (simp add: pass_list_unchanged)
    then have "pass_list merged t = merged" by (rule pass_list_id)
    with a False show ?thesis by (subst merge_loop.simps) (simp add: merge_pass_eq)
  qed
qed

lemma merge_loop_id: "apart t bs \<Longrightarrow> merge_loop bs t = bs"
  by (subst merge_loop.simps) (simp add: merge_pass_eq pass_list_id)

lemma merge_nearby_apart: "apart t (merge_nearby_bboxes bs t)"
  by (simp add: merge_nearby_bboxes_def merge_loop_apart)

lemma merge_nearby_id: "apart t bs \<Longrightarrow> merge_nearby_bboxes bs t = bs"
  by (simp add: merge_nearby_bboxes_def merge_loop_id)

text \<open>
  The gaps of the specification: the horizontal and the vertical distance of two
  rectangles (negative when they overlap on that axis), and ``within distance \<open>t\<close>''.
\<close>

definition h_gap :: "rect \<Rightarrow> rect \<Rightarrow> real" where
  "h_gap a b = max (x0 b - x1 a) (x0 a - x1 b)"
definition v_gap :: "rect \<Rightarrow> rect \<Rightarrow> real" where
  "v_gap a b = max (y0 b - y1 a) (y0 a - y1 b)"
definition within_distance :: "real \<Rightarrow> rect \<Rightarrow> rect \<Rightarrow> bool" where
  "within_distance t a b \<longleftrightarrow> h_gap a b \<le> t \<and> v_gap a b \<le> t"

lemma is_nearby_gap: "is_nearby a b t \<longleftrightarrow> within_distance t a b"
  by (auto simp: is_nearby_def within_distance_def h_gap_def v_gap_def)

subsection \<open>Merging as rewriting of a multiset of rectangles\<close>

text \<open>
  \<open>inside a b\<close>: the rectangle \<open>a\<close> lies in \<open>b\<close>.  Nearness survives when the
  rectangles or the threshold grow.
\<close>

definition inside :: "rect \<Rightarrow> rect \<Rightarrow> bool" where
  "inside a b \<longleftrightarrow> x0 b \<le> x0 a \<and> y0 b \<le> y0 a \<and> x1 a \<le> x1 b \<and> y1 a \<le> y1 b"

lemma inside_refl [simp]: "inside a a"
  by (simp add: inside_def)

lemma inside_trans: "inside a b \<Longrightarrow> inside b c \<Longrightarrow> inside a c"
  by (auto simp: inside_def)

lemma inside_union1: "inside a (union_rect a b)" and inside_union2: "inside b (union_rect a b)"
  by (auto simp: inside_def union_rect_def)

lemma union_inside: "inside a c \<Longrightarrow> inside b c \<Longrightarrow> inside (union_rect a b) c"
  by (auto simp: inside_def union_rect_def)

lemma is_nearby_mono:
  "is_nearby a b t \<Longrightarrow> inside a a' \<Longrightarrow> inside b b' \<Longrightarrow> t \<le> t' \<Longrightarrow> is_nearby a' b' t'"
  by (auto simp: is_nearby_def inside_def)

text \<open>
  One merge step on the multiset of the current rectangles: two rectangles near each other
  are replaced by their union.  Every absorption of a scan is such a step, so a scan, and
  the whole merge, is a sequence of steps.
\<close>

inductive mstep :: "real \<Rightarrow> rect multiset \<Rightarrow> rect multiset \<Rightarrow> bool" for t where
  join: "is_nearby a b t \<Longrightarrow> mstep t (add_mset a (add_mset b C)) (add_mset (union_rect a b) C)"

lemma mstep_add: "mstep t A B \<Longrightarrow> mstep t (add_mset d A) (add_mset d B)"
proof (induction rule: mstep.induct)
  case (join a b C)
  from mstep.join [OF join, of "add_mset d C"] show ?case
    by (simp add: add_mset_commute)
qed

lemma msteps_add: "(mstep t)\<^sup>*\<^sup>* A B \<Longrightarrow> (mstep t)\<^sup>*\<^sup>* (add_mset d A) (add_mset d B)"
  by (induction rule: rtranclp_induct) (auto intro: mstep_add rtranclp.rtrancl_into_rtrancl)

lemma absorb_msteps:
  "(mstep t)\<^sup>*\<^sup>* (add_mset cur (mset bs)) (add_mset (fst (absorb cur bs t)) (mset (snd (absorb cur bs t))))"
proof (induction bs arbitrary: cur)
  case Nil
  show ?case by simp
next
  case (Cons b bs)
  show ?case
  proof (cases "is_nearby cur b t")
    case True
    then have "mstep t (add_mset cur (mset (b # bs))) (add_mset (union_rect cur b) (mset bs))"
      by (simp add: mstep.join)
    with Cons [of "union_rect cur b"] True show ?thesis
      by (simp add: converse_rtranclp_into_rtranclp)
  next
    case False
    from msteps_add [OF Cons [of cur], of b] False show ?thesis
      by (simp add: add_mset_commute)
  qed
qed

lemma pass_list_msteps: "(mstep t)\<^sup>*\<^sup>* (mset bs) (mset (pass_list bs t))"
proof (induction bs t rule: pass_list.induct)
  case (1 t)
  show ?case by simp
next
  case (2 b bs t)
  have "(mstep t)\<^sup>*\<^sup>* (mset (b # bs)) (add_mset (fst (absorb b bs t)) (mset (snd (absorb b bs t))))"
    using absorb_msteps [of t b bs] by simp
  also have "(mstep t)\<^sup>*\<^sup>* \<dots> (add_mset (fst (absorb b bs t)) (mset (pass_list (snd (absorb b bs t)) t)))"
    by (rule msteps_add) (rule 2)
  finally show ?case by simp
qed

lemma merge_loop_msteps: "(mstep t)\<^sup>*\<^sup>* (mset bs) (mset (merge_loop bs t))"
proof (induction bs t rule: merge_loop.induct)
  case (1 merged t)
  show ?case
  proof (cases "length (pass_list merged t) < length merged")
    case True
    have "(mstep t)\<^sup>*\<^sup>* (mset merged) (mset (pass_list merged t))" by (rule pass_list_msteps)
    also have "(mstep t)\<^sup>*\<^sup>* \<dots> (mset (merge_loop (pass_list merged t) t))"
      using 1 [of "pass_list merged t" True] True by (simp add: merge_pass_eq)
    finally show ?thesis using True by (subst merge_loop.simps) (simp add: merge_pass_eq)
  next
    case False
    with pass_list_msteps [of t merged] show ?thesis
      by (subst merge_loop.simps) (simp add: merge_pass_eq)
  qed
qed

lemma merge_nearby_msteps: "(mstep t)\<^sup>*\<^sup>* (mset bs) (mset (merge_nearby_bboxes bs t))"
  by (simp add: merge_nearby_bboxes_def merge_loop_msteps)

text \<open>
  \<open>covers A M\<close>: the rectangles of the multiset \<open>A\<close> can be assigned to positions of the
  list \<open>M\<close>, each to a rectangle that contains it, so that every position is taken.  Then
  \<open>A\<close> has at least as many rectangles as \<open>M\<close>.
\<close>

definition covers :: "rect multiset \<Rightarrow> rect list \<Rightarrow> bool" where
  "covers A M \<longleftrightarrow>
     (\<exists>P. image_mset fst P = A \<and> (\<forall>p\<in>#P. snd p < length M \<and> inside (fst p) (M ! snd p))
          \<and> snd ` set_mset P = {..<length M})"

lemma covers_self: "covers (mset M) M"
proof -
  let ?P = "mset (zip M [0 ..< length M])"
  have "image_mset fst ?P = mset M"
    by (metis length_upt map_fst_zip minus_nat.diff_0 mset_map)
  moreover have "\<forall>p\<in>#?P. snd p < length M \<and> inside (fst p) (M ! snd p)"
    by (auto simp: set_zip)
  moreover have "snd ` set_mset ?P = {..<length M}"
  proof -
    have "map snd (zip M [0 ..< length M]) = [0 ..< length M]" by (rule map_snd_zip) simp
    then have "set (map snd (zip M [0 ..< length M])) = set [0 ..< length M]" by (rule arg_cong)
    then have "snd ` set (zip M [0 ..< length M]) = {..<length M}"
      by (simp only: set_map set_upt lessThan_atLeast0)
    then show ?thesis by (simp only: set_mset_mset)
  qed
  ultimately show ?thesis unfolding covers_def by blast
qed

lemma covers_size:
  assumes "covers A M"
  shows "length M \<le> size A"
proof -
  from assms obtain P where P: "image_mset fst P = A" "snd ` set_mset P = {..<length M}"
    unfolding covers_def by blast
  have "length M = card (snd ` set_mset P)" using P(2) by simp
  also have "\<dots> \<le> card (set_mset P)" by (rule card_image_le) simp
  also have "\<dots> \<le> size P" by (induction P) (auto simp: card_insert_if)
  also have "\<dots> = size A" using P(1) by auto
  finally show ?thesis .
qed

lemma covers_back:
  assumes "mstep t A B" and "covers B M"
  shows "covers A M"
  using assms
proof (induction rule: mstep.induct)
  case (join a b C)
  from join(2) obtain P where P: "image_mset fst P = add_mset (union_rect a b) C"
    and ins: "\<forall>p\<in>#P. snd p < length M \<and> inside (fst p) (M ! snd p)"
    and sur: "snd ` set_mset P = {..<length M}"
    unfolding covers_def by blast
  from msed_map_invR [OF P] obtain Q p where Q: "P = add_mset p Q" "fst p = union_rect a b"
    "image_mset fst Q = C" by blast
  let ?P' = "add_mset (a, snd p) (add_mset (b, snd p) Q)"
  have pi: "snd p < length M" "inside (union_rect a b) (M ! snd p)"
    using ins Q by auto
  have "image_mset fst ?P' = add_mset a (add_mset b C)" using Q by simp
  moreover have "\<forall>q\<in>#?P'. snd q < length M \<and> inside (fst q) (M ! snd q)"
    using ins Q pi by (auto intro: inside_trans [OF inside_union1] inside_trans [OF inside_union2])
  moreover have "snd ` set_mset ?P' = {..<length M}"
    using sur Q by auto
  ultimately show ?case unfolding covers_def by blast
qed

lemma apart_nth:
  assumes "apart t M" "i < length M" "j < length M" "is_nearby (M ! i) (M ! j) t"
  shows "i = j"
proof (rule ccontr)
  assume "i \<noteq> j"
  then consider "i < j" | "j < i" by linarith
  then show False
  proof cases
    case 1
    with assms show False by (simp add: sorted_wrt_iff_nth_less)
  next
    case 2
    from assms(4) have "is_nearby (M ! j) (M ! i) t" by (simp add: is_nearby_sym)
    with 2 assms show False by (simp add: sorted_wrt_iff_nth_less)
  qed
qed

lemma covers_forw:
  assumes "mstep t A B" and "covers A M" and "apart t' M" and "t \<le> t'"
  shows "covers B M"
  using assms
proof (induction rule: mstep.induct)
  case (join a b C)
  from join(2) obtain P where P: "image_mset fst P = add_mset a (add_mset b C)"
    and ins: "\<forall>p\<in>#P. snd p < length M \<and> inside (fst p) (M ! snd p)"
    and sur: "snd ` set_mset P = {..<length M}"
    unfolding covers_def by blast
  from msed_map_invR [OF P] obtain Q p where Q: "P = add_mset p Q" "fst p = a"
    "image_mset fst Q = add_mset b C" by blast
  from msed_map_invR [OF Q(3)] obtain Q' q where Q': "Q = add_mset q Q'" "fst q = b"
    "image_mset fst Q' = C" by blast
  have pi: "snd p < length M" "inside a (M ! snd p)" "snd q < length M" "inside b (M ! snd q)"
    using ins Q Q' by auto
  have "is_nearby (M ! snd p) (M ! snd q) t'"
    using join(1) pi(2,4) join(4) by (rule is_nearby_mono)
  with join(3) pi(1,3) have e: "snd p = snd q" by (rule apart_nth)
  let ?P' = "add_mset (union_rect a b, snd p) Q'"
  have "image_mset fst ?P' = add_mset (union_rect a b) C" using Q' by simp
  moreover have "\<forall>r\<in>#?P'. snd r < length M \<and> inside (fst r) (M ! snd r)"
    using ins Q Q' pi e by (auto intro: union_inside)
  moreover have "snd ` set_mset ?P' = {..<length M}"
    using sur Q Q' e by auto
  ultimately show ?case unfolding covers_def by blast
qed

lemma covers_msteps_back: "(mstep t)\<^sup>*\<^sup>* A B \<Longrightarrow> covers B M \<Longrightarrow> covers A M"
  by (induction rule: rtranclp_induct) (auto intro: covers_back)

lemma covers_msteps_forw:
  "(mstep t)\<^sup>*\<^sup>* A B \<Longrightarrow> covers A M \<Longrightarrow> apart t' M \<Longrightarrow> t \<le> t' \<Longrightarrow> covers B M"
  by (induction rule: rtranclp_induct) (auto intro: covers_forw)

subsection \<open>Merged regions with their members\<close>

text \<open>
  The merged region of the specification has bounds and members; the source keeps the
  bounds only.  To speak about the members, the scan is run on regions that carry, beside
  the running union, the input rectangles they have absorbed.  It is the same merge: the
  bounds of its regions are the output of \<open>merge_nearby_bboxes\<close>
  (\<open>merge_regions_bounds\<close> below).
\<close>

record region =
  bounds :: rect
  members :: "rect list"

definition single_region :: "rect \<Rightarrow> region" where
  "single_region r = \<lparr>bounds = r, members = [r]\<rparr>"

definition join_region :: "region \<Rightarrow> region \<Rightarrow> region" where
  "join_region a b = \<lparr>bounds = union_rect (bounds a) (bounds b), members = members a @ members b\<rparr>"

fun absorb_regions :: "region \<Rightarrow> region list \<Rightarrow> real \<Rightarrow> region \<times> region list" where
  "absorb_regions cur [] t = (cur, [])"
| "absorb_regions cur (b # bs) t =
     (if is_nearby (bounds cur) (bounds b) t then absorb_regions (join_region cur b) bs t
      else (fst (absorb_regions cur bs t), b # snd (absorb_regions cur bs t)))"

lemma absorb_regions_bounds:
  "bounds (fst (absorb_regions cur bs t)) = fst (absorb (bounds cur) (map bounds bs) t) \<and>
   map bounds (snd (absorb_regions cur bs t)) = snd (absorb (bounds cur) (map bounds bs) t)"
  by (induction bs arbitrary: cur) (simp_all add: join_region_def)

lemma absorb_regions_length: "length (snd (absorb_regions cur bs t)) \<le> length bs"
  using absorb_length [of "bounds cur" "map bounds bs" t]
  by (simp add: absorb_regions_bounds [THEN conjunct2, symmetric])

function pass_regions :: "region list \<Rightarrow> real \<Rightarrow> region list" where
  "pass_regions [] t = []"
| "pass_regions (b # bs) t =
     fst (absorb_regions b bs t) # pass_regions (snd (absorb_regions b bs t)) t"
  by pat_completeness auto
termination
  by (relation "measure (\<lambda>(bs, t). length bs)") (auto simp: absorb_regions_length less_Suc_eq_le)

lemma pass_regions_bounds: "map bounds (pass_regions gs t) = pass_list (map bounds gs) t"
  by (induction gs t rule: pass_regions.induct) (simp_all add: absorb_regions_bounds)

lemma pass_regions_length: "length (pass_regions gs t) \<le> length gs"
  using pass_list_length [of "map bounds gs" t]
  by (simp add: pass_regions_bounds [symmetric])

function regions_loop :: "region list \<Rightarrow> real \<Rightarrow> region list" where
  "regions_loop merged t =
     (if length (pass_regions merged t) < length merged
      then regions_loop (pass_regions merged t) t else pass_regions merged t)"
  by pat_completeness auto
termination
  by (relation "measure (\<lambda>(merged, t). length merged)") auto

declare regions_loop.simps [simp del]

definition merge_regions :: "rect list \<Rightarrow> real \<Rightarrow> region list" where
  "merge_regions bboxes threshold =
     (if bboxes = [] then [] else regions_loop (map single_region bboxes) threshold)"

lemma regions_loop_bounds: "map bounds (regions_loop gs t) = merge_loop (map bounds gs) t"
proof (induction gs t rule: regions_loop.induct)
  case (1 merged t)
  have l: "length (pass_list (map bounds merged) t) = length (pass_regions merged t)"
    by (simp add: pass_regions_bounds [symmetric])
  show ?case
  proof (cases "length (pass_regions merged t) < length merged")
    case True
    with 1 l show ?thesis
      by (subst regions_loop.simps, subst merge_loop.simps)
         (simp add: merge_pass_eq pass_regions_bounds)
  next
    case False
    with l show ?thesis
      by (subst regions_loop.simps, subst merge_loop.simps)
         (simp add: merge_pass_eq pass_regions_bounds)
  qed
qed

lemma merge_regions_bounds: "map bounds (merge_regions R t) = merge_nearby_bboxes R t"
  by (simp add: merge_regions_def merge_nearby_bboxes_def regions_loop_bounds comp_def single_region_def)

text \<open>
  How a region comes about: from one input rectangle, or by joining two regions whose
  bounds are near each other.
\<close>

inductive built :: "real \<Rightarrow> region \<Rightarrow> bool" for t where
  single: "built t (single_region r)"
| joined: "built t a \<Longrightarrow> built t b \<Longrightarrow> is_nearby (bounds a) (bounds b) t \<Longrightarrow> built t (join_region a b)"

lemma absorb_regions_built:
  "built t cur \<Longrightarrow> \<forall>g\<in>set gs. built t g \<Longrightarrow>
     built t (fst (absorb_regions cur gs t)) \<and> (\<forall>g\<in>set (snd (absorb_regions cur gs t)). built t g)"
  by (induction gs arbitrary: cur) (auto intro: built.joined)

lemma pass_regions_built: "\<forall>g\<in>set gs. built t g \<Longrightarrow> \<forall>g\<in>set (pass_regions gs t). built t g"
proof (induction gs t rule: pass_regions.induct)
  case (1 t)
  show ?case by simp
next
  case (2 b bs t)
  from 2(2) have "built t b" "\<forall>g\<in>set bs. built t g" by simp_all
  from absorb_regions_built [OF this] 2(1) show ?case by simp
qed

lemma regions_loop_built: "\<forall>g\<in>set gs. built t g \<Longrightarrow> \<forall>g\<in>set (regions_loop gs t). built t g"
proof (induction gs t rule: regions_loop.induct)
  case (1 merged t)
  from pass_regions_built [OF 1(2)] have p: "\<forall>g\<in>set (pass_regions merged t). built t g" .
  show ?case
  proof (cases "length (pass_regions merged t) < length merged")
    case True
    from 1(1) [OF True p] True show ?thesis by (subst regions_loop.simps) simp
  next
    case False
    with p show ?thesis by (subst regions_loop.simps) simp
  qed
qed

lemma merge_regions_built: "g \<in> set (merge_regions R t) \<Longrightarrow> built t g"
  using regions_loop_built [of "map single_region R" t]
  by (auto simp: merge_regions_def built.single split: if_splits)

lemma absorb_regions_members:
  "mset (members (fst (absorb_regions cur gs t))) + mset (concat (map members (snd (absorb_regions cur gs t))))
     = mset (members cur) + mset (concat (map members gs))"
  by (induction gs arbitrary: cur) (simp_all add: join_region_def)

lemma pass_regions_members:
  "mset (concat (map members (pass_regions gs t))) = mset (concat (map members gs))"
proof (induction gs t rule: pass_regions.induct)
  case (1 t)
  show ?case by simp
next
  case (2 b bs t)
  with absorb_regions_members [of b bs t] show ?case by simp
qed

lemma regions_loop_members:
  "mset (concat (map members (regions_loop gs t))) = mset (concat (map members gs))"
proof (induction gs t rule: regions_loop.induct)
  case (1 merged t)
  show ?case
  proof (cases "length (pass_regions merged t) < length merged")
    case True
    with 1 show ?thesis by (subst regions_loop.simps) (simp add: pass_regions_members)
  next
    case False
    then show ?thesis by (subst regions_loop.simps) (simp add: pass_regions_members)
  qed
qed

lemma merge_regions_members: "mset (concat (map members (merge_regions R t))) = mset R"
proof -
  have "concat (map members (map single_region R)) = R"
    by (induction R) (simp_all add: single_region_def)
  then show ?thesis by (simp add: merge_regions_def regions_loop_members del: map_map)
qed

text \<open>The exceptions of the Python code that occur in this development.\<close>

datatype py_error = ValueError | KeyError | TypeError

text \<open>
  \<^verbatim>\<open>_merge_bboxes_to_one(bboxes)\<close>; \<^verbatim>\<open>min\<close> and \<^verbatim>\<open>max\<close> of an empty sequence
  raise \<^verbatim>\<open>ValueError\<close>.
\<close>

definition merge_bboxes_to_one :: "rect list \<Rightarrow> py_error + rect" where
  "merge_bboxes_to_one bboxes =
     (if bboxes = [] then Inl ValueError
      else Inr \<lparr>x0 = Min (set (map x0 bboxes)), y0 = Min (set (map y0 bboxes)),
                x1 = Max (set (map x1 bboxes)), y1 = Max (set (map y1 bboxes))\<rparr>)"

lemma built_bounds: "built t g \<Longrightarrow> merge_bboxes_to_one (members g) = Inr (bounds g)"
proof (induction rule: built.induct)
  case (single r)
  show ?case by (simp add: single_region_def merge_bboxes_to_one_def)
next
  case (joined a b)
  then have na: "members a \<noteq> []" and nb: "members b \<noteq> []"
    by (auto simp: merge_bboxes_to_one_def)
  from joined(4) na
  have ea: "bounds a = \<lparr>x0 = Min (x0 ` set (members a)), y0 = Min (y0 ` set (members a)),
                        x1 = Max (x1 ` set (members a)), y1 = Max (y1 ` set (members a))\<rparr>"
    by (simp add: merge_bboxes_to_one_def)
  from joined(5) nb
  have eb: "bounds b = \<lparr>x0 = Min (x0 ` set (members b)), y0 = Min (y0 ` set (members b)),
                        x1 = Max (x1 ` set (members b)), y1 = Max (y1 ` set (members b))\<rparr>"
    by (simp add: merge_bboxes_to_one_def)
  have u: "union_rect (bounds a) (bounds b) =
      \<lparr>x0 = min (Min (x0 ` set (members a))) (Min (x0 ` set (members b))),
       y0 = min (Min (y0 ` set (members a))) (Min (y0 ` set (members b))),
       x1 = max (Max (x1 ` set (members a))) (Max (x1 ` set (members b))),
       y1 = max (Max (y1 ` set (members a))) (Max (y1 ` set (members b)))\<rparr>"
    by (subst ea, subst eb) (simp add: union_rect_def)
  from na nb show ?case
    by (simp add: merge_bboxes_to_one_def join_region_def u image_Un Min_Un Max_Un)
qed

subsection \<open>Three rectangles in a row\<close>

text \<open>
  Three squares of side 10 on one line, 40 apart: the first and the third are 90 apart.
\<close>

definition ex_a :: rect where "ex_a = \<lparr>x0 = 0, y0 = 0, x1 = 10, y1 = 10\<rparr>"
definition ex_b :: rect where "ex_b = \<lparr>x0 = 50, y0 = 0, x1 = 60, y1 = 10\<rparr>"
definition ex_c :: rect where "ex_c = \<lparr>x0 = 100, y0 = 0, x1 = 110, y1 = 10\<rparr>"

lemma merge_ex_35: "merge_nearby_bboxes [ex_a, ex_b, ex_c] 35 = [ex_a, ex_b, ex_c]"
  by (simp add: merge_nearby_bboxes_def merge_loop.simps merge_pass_eq is_nearby_def
      ex_a_def ex_b_def ex_c_def)

lemma merge_ex_45:
  "merge_nearby_bboxes [ex_a, ex_b, ex_c] 45 = [\<lparr>x0 = 0, y0 = 0, x1 = 110, y1 = 10\<rparr>]"
  by (simp add: merge_nearby_bboxes_def merge_loop.simps merge_pass_eq is_nearby_def
      union_rect_def ex_a_def ex_b_def ex_c_def)

lemma merge_regions_ex_45:
  "merge_regions [ex_a, ex_b, ex_c] 45 =
     [\<lparr>bounds = \<lparr>x0 = 0, y0 = 0, x1 = 110, y1 = 10\<rparr>, members = [ex_a, ex_b, ex_c]\<rparr>]"
  by (simp add: merge_regions_def regions_loop.simps single_region_def join_region_def
      is_nearby_def union_rect_def ex_a_def ex_b_def ex_c_def)

lemma merge_bboxes_to_one_inside:
  assumes "merge_bboxes_to_one ms = Inr b"
  shows "\<forall>m\<in>set ms. inside m b"
proof -
  from assms have b: "b = \<lparr>x0 = Min (x0 ` set ms), y0 = Min (y0 ` set ms),
                            x1 = Max (x1 ` set ms), y1 = Max (y1 ` set ms)\<rparr>"
    by (auto simp: merge_bboxes_to_one_def split: if_splits)
  show ?thesis by (subst b) (simp add: inside_def)
qed

lemma merge_bboxes_to_one_least:
  assumes "merge_bboxes_to_one ms = Inr b" and "\<forall>m\<in>set ms. inside m c"
  shows "inside b c"
proof -
  from assms(1) have n: "ms \<noteq> []"
    and b: "b = \<lparr>x0 = Min (x0 ` set ms), y0 = Min (y0 ` set ms),
                     x1 = Max (x1 ` set ms), y1 = Max (y1 ` set ms)\<rparr>"
    by (auto simp: merge_bboxes_to_one_def split: if_splits)
  from n assms(2) show ?thesis by (subst b) (simp add: inside_def)
qed

section \<open>Figure references in text (parsers/figure\_parser.py)\<close>

text \<open>
  A Python string is a sequence of code points, here natural numbers; \<open>codes\<close> turns an
  ASCII literal into one.
\<close>

type_synonym ustr = "nat list"

definition codes :: "string \<Rightarrow> ustr" where
  "codes s = map of_char s"

subsection \<open>The character classes of the patterns, under \<^verbatim>\<open>re.IGNORECASE\<close>\<close>

text \<open>
  Every pattern is applied with \<^verbatim>\<open>re.IGNORECASE\<close>, so a letter of a pattern matches both
  cases, and with them the code points that the library folds to the same letter: the
  dotted and the dotless i (U+0130, U+0131) for \<open>i\<close>, the long s (U+017F) for \<open>s\<close>, the
  Kelvin sign (U+212A) for \<open>k\<close>.  The class \<^verbatim>\<open>[a-z]\<close> is the 52 ASCII letters and these
  four.  \<^verbatim>\<open>\s\<close> is the Unicode white space.  \<^verbatim>\<open>\d\<close> is modelled on the ASCII digits;
  the decimal digits of other scripts, which the library accepts as well, are outside the
  model.
\<close>

definition letter :: "nat \<Rightarrow> bool" where
  "letter c \<longleftrightarrow> (97 \<le> c \<and> c \<le> 122) \<or> (65 \<le> c \<and> c \<le> 90) \<or> c \<in> set [304, 305, 383, 8490]"

definition space :: "nat \<Rightarrow> bool" where
  "space c \<longleftrightarrow> (9 \<le> c \<and> c \<le> 13) \<or> (28 \<le> c \<and> c \<le> 32) \<or> c = 133 \<or> c = 160 \<or> c = 5760
     \<or> (8192 \<le> c \<and> c \<le> 8202) \<or> c \<in> set [8232, 8233, 8239, 8287, 12288]"

definition digit :: "nat \<Rightarrow> bool" where
  "digit c \<longleftrightarrow> 48 \<le> c \<and> c \<le> 57"

text \<open>A letter of a pattern, given by its lower-case character.\<close>

definition ci :: "char \<Rightarrow> nat \<Rightarrow> bool" where
  "ci l c \<longleftrightarrow> c = of_char l \<or> c + 32 = of_char l
     \<or> (l = CHR ''i'' \<and> (c = 304 \<or> c = 305)) \<or> (l = CHR ''s'' \<and> c = 383)
     \<or> (l = CHR ''k'' \<and> c = 8490)"

text \<open>A class of punctuation characters such as \<^verbatim>\<open>[\.\(]\<close>.\<close>

definition one_of :: "string \<Rightarrow> nat \<Rightarrow> bool" where
  "one_of s c \<longleftrightarrow> c \<in> of_char ` set s"

text \<open>The character U+56FE of the Chinese patterns.\<close>

definition tu :: "nat \<Rightarrow> bool" where
  "tu c \<longleftrightarrow> c = 22270"

subsection \<open>Patterns and backtracking matching\<close>

text \<open>
  The patterns only repeat single characters, so an atom is a character class taken once,
  optionally (\<^verbatim>\<open>?\<close>), any number of times (\<^verbatim>\<open>*\<close>) or at least once (\<^verbatim>\<open>+\<close>), or an
  alternation of words (\<^verbatim>\<open>(?:see|in|as|from|of)\<close>).  An item of a pattern is an atom, an atom
  in a capturing group, or a negative lookahead \<^verbatim>\<open>(?!...)\<close> over atoms.
\<close>

datatype atom =
    One "nat \<Rightarrow> bool"
  | Opt "nat \<Rightarrow> bool"
  | Star "nat \<Rightarrow> bool"
  | Plus "nat \<Rightarrow> bool"
  | Words "(nat \<Rightarrow> bool) list list"

datatype item = Atom atom | Group atom | NotAhead "atom list"

text \<open>
  The numbers of characters that an atom can take at the start of a text, in the order in
  which the backtracking matcher tries them: the quantifiers are greedy, the words of an
  alternation are tried from left to right.
\<close>

definition word_matches :: "(nat \<Rightarrow> bool) list \<Rightarrow> ustr \<Rightarrow> bool" where
  "word_matches w s \<longleftrightarrow> length w \<le> length s \<and> list_all2 (\<lambda>p c. p c) w (take (length w) s)"

fun runs :: "atom \<Rightarrow> ustr \<Rightarrow> nat list" where
  "runs (One p) s = (case s of [] \<Rightarrow> [] | c # _ \<Rightarrow> if p c then [1] else [])"
| "runs (Opt p) s = (case s of [] \<Rightarrow> [0] | c # _ \<Rightarrow> if p c then [1, 0] else [0])"
| "runs (Star p) s = rev [0 ..< Suc (length (takeWhile p s))]"
| "runs (Plus p) s = rev [1 ..< Suc (length (takeWhile p s))]"
| "runs (Words ws) s = map length (filter (\<lambda>w. word_matches w s) ws)"

text \<open>
  Backtracking over a sequence of atoms at the start of a text: the runs of the first atom
  are tried in order, each followed by the rest of the sequence on the rest of the text;
  the result says whether some way succeeds.  This is all that a lookahead asks.
\<close>

fun match_atoms :: "atom list \<Rightarrow> ustr \<Rightarrow> bool"
  and atoms_after :: "nat list \<Rightarrow> atom list \<Rightarrow> ustr \<Rightarrow> bool" where
  "match_atoms [] s = True"
| "match_atoms (a # as) s = atoms_after (runs a s) as s"
| "atoms_after [] as s = False"
| "atoms_after (n # ns) as s = (if match_atoms as (drop n s) then True else atoms_after ns as s)"

text \<open>
  Backtracking over the items of a pattern at the start of a text: the first way that
  succeeds, with the number of characters matched and the texts of the groups, or
  \<open>None\<close>.  \<open>items_after g ns is s\<close> tries the runs \<open>ns\<close> of an atom, which is in a
  group when \<open>g\<close> holds, each followed by the items \<open>is\<close>.
\<close>

fun match_items :: "item list \<Rightarrow> ustr \<Rightarrow> (nat \<times> ustr list) option"
  and items_after :: "bool \<Rightarrow> nat list \<Rightarrow> item list \<Rightarrow> ustr \<Rightarrow> (nat \<times> ustr list) option" where
  "match_items [] s = Some (0, [])"
| "match_items (Atom a # is) s = items_after False (runs a s) is s"
| "match_items (Group a # is) s = items_after True (runs a s) is s"
| "match_items (NotAhead as # is) s = (if match_atoms as s then None else match_items is s)"
| "items_after g [] is s = None"
| "items_after g (n # ns) is s =
     (case match_items is (drop n s) of
        Some (m, groups) \<Rightarrow> Some (n + m, if g then take n s # groups else groups)
      | None \<Rightarrow> items_after g ns is s)"

text \<open>A match object: \<^verbatim>\<open>start()\<close>, \<^verbatim>\<open>end()\<close>, \<^verbatim>\<open>group(0)\<close> and the groups from 1 on.\<close>

record match =
  m_start :: nat
  m_end :: nat
  m_text :: ustr
  m_groups :: "ustr list"

text \<open>
  \<^verbatim>\<open>re.finditer(pattern, text)\<close>: the matches from left to right, each search starting
  where the previous match ended.  \<open>i\<close> is the position in the whole text of the rest
  \<open>s\<close>.  After a match of no character the search moves on by one character; no pattern
  of the extractor has such a match.
\<close>

function finditer_from :: "item list \<Rightarrow> nat \<Rightarrow> ustr \<Rightarrow> match list" where
  "finditer_from p i [] =
     (case match_items p [] of
        None \<Rightarrow> []
      | Some (n, groups) \<Rightarrow> [\<lparr>m_start = i, m_end = i, m_text = [], m_groups = groups\<rparr>])"
| "finditer_from p i (c # cs) =
     (case match_items p (c # cs) of
        None \<Rightarrow> finditer_from p (Suc i) cs
      | Some (n, groups) \<Rightarrow>
          \<lparr>m_start = i, m_end = i + n, m_text = take n (c # cs), m_groups = groups\<rparr>
            # finditer_from p (i + max n 1) (drop (max n 1) (c # cs)))"
  by pat_completeness auto
termination
  by (relation "measure (\<lambda>(p, i, s). length s)") auto

definition finditer :: "item list \<Rightarrow> ustr \<Rightarrow> match list" where
  "finditer p s = finditer_from p 0 s"

subsection \<open>The patterns of the extractor\<close>

text \<open>\<^verbatim>\<open>[Ff]igure?\<close>, \<^verbatim>\<open>[Ff]ig\.?\<close>, \<^verbatim>\<open>FIGURE\<close> and \<^verbatim>\<open>Figure\<close> as items.\<close>

definition lit :: "string \<Rightarrow> item list" where
  "lit s = map (\<lambda>l. Atom (One (ci l))) s"

definition figure_opt_e :: "item list" where
  "figure_opt_e = lit ''figur'' @ [Atom (Opt (ci CHR ''e''))]"

definition fig_opt_dot :: "item list" where
  "fig_opt_dot = lit ''fig'' @ [Atom (Opt (one_of ''.''))]"

text \<open>The tail \<^verbatim>\<open>(?!\s*[a-z])\<close> and the tail \<^verbatim>\<open>\s*[...]?\s*([a-z])\s*[\)]?\<close> with its separators.\<close>

definition no_letter_ahead :: item where
  "no_letter_ahead = NotAhead [Star space, One letter]"

definition subfigure_tail :: "string \<Rightarrow> item list" where
  "subfigure_tail seps =
     [Atom (Star space), Atom (Opt (one_of seps)), Atom (Star space), Group (One letter), Atom (Star space),
      Atom (Opt (one_of '')''))]"

definition number :: item where
  "number = Group (Plus digit)"

text \<open>\<^verbatim>\<open>PATTERNS\<close>: each pattern with its flag \<^verbatim>\<open>has_subfigure\<close>, in the order of the source.\<close>

definition PATTERNS :: "(item list \<times> bool) list" where
  "PATTERNS =
     [(figure_opt_e @ [Atom (Plus space), number] @ subfigure_tail ''.('', True),
      (fig_opt_dot @ [Atom (Plus space), number] @ subfigure_tail ''.('', True),
      ([Atom (One tu), Atom (Star space), number] @ subfigure_tail ''-.('', True),
      ([Atom (Words (map (map ci) [''see'', ''in'', ''as'', ''from'', ''of''])), Atom (Plus space)]
         @ figure_opt_e @ [Atom (Plus space), number, no_letter_ahead], False),
      (figure_opt_e @ [Atom (Plus space), number, no_letter_ahead], False),
      (figure_opt_e @ [Atom (Plus space), number, Atom (Star space), Atom (One (one_of '':.'')),
         Atom (Star space)], False),
      (lit ''figure'' @ [Atom (Plus space), number, no_letter_ahead], False),
      ([Atom (One (one_of ''(['')) ] @ lit ''figure'' @ [Atom (Plus space), number,
         Atom (One (one_of '')]''))], False),
      (fig_opt_dot @ [Atom (Plus space), number, no_letter_ahead], False),
      ([Atom (One tu), Atom (Star space), number, no_letter_ahead], False)]"

subsection \<open>extract\_references\<close>

record reference =
  ref_text :: ustr
  ref_figure :: nat
  ref_subfigure :: "ustr option"
  ref_start :: nat
  ref_end :: nat

text \<open>\<^verbatim>\<open>int(match.group(1))\<close> on a text of ASCII digits.\<close>

definition py_int :: "ustr \<Rightarrow> nat" where
  "py_int ds = foldl (\<lambda>a c. 10 * a + (c - 48)) 0 ds"

text \<open>
  The dictionary appended for one match.  Every pattern has the group 1, a run of at least
  one digit, and the patterns with \<^verbatim>\<open>has_subfigure\<close> have the group 2; so
  \<^verbatim>\<open>match.group(1)\<close> and \<^verbatim>\<open>int\<close> do not raise, and the case of a match without
  groups is written only to make the definition total.
\<close>

definition make_reference :: "bool \<Rightarrow> match \<Rightarrow> reference" where
  "make_reference has_subfigure m =
     \<lparr>ref_text = m_text m,
      ref_figure = py_int (case m_groups m of [] \<Rightarrow> [] | g # _ \<Rightarrow> g),
      ref_subfigure =
        (if has_subfigure \<and> length (m_groups m) > 1 then Some (m_groups m ! 1) else None),
      ref_start = m_start m,
      ref_end = m_end m\<rparr>"

text \<open>The list \<^verbatim>\<open>references\<close> after the two nested loops.\<close>

fun references_of :: "(item list \<times> bool) list \<Rightarrow> ustr \<Rightarrow> reference list" where
  "references_of [] s = []"
| "references_of ((pattern, has_subfigure) # patterns) s =
     map (make_reference has_subfigure) (finditer pattern s) @ references_of patterns s"

definition all_references :: "ustr \<Rightarrow> reference list" where
  "all_references s = references_of PATTERNS s"

text \<open>The last loop: the first reference of each key \<^verbatim>\<open>(figure, subfigure)\<close> is kept.\<close>

definition ref_key :: "reference \<Rightarrow> nat \<times> ustr option" where
  "ref_key r = (ref_figure r, ref_subfigure r)"

fun unique_refs :: "reference list \<Rightarrow> (nat \<times> ustr option) set \<Rightarrow> reference list" where
  "unique_refs [] seen = []"
| "unique_refs (r # rs) seen =
     (if ref_key r \<notin> seen then r # unique_refs rs (insert (ref_key r) seen)
      else unique_refs rs seen)"

definition extract_references :: "ustr \<Rightarrow> reference list" where
  "extract_references s = unique_refs (sort_key ref_start (all_references s)) {}"

text \<open>The definitions that evaluate the extractor on a given text.\<close>

lemmas eval_defs = codes_def letter_def space_def digit_def ci_def one_of_def tu_def word_matches_def
  lit_def figure_opt_e_def fig_opt_dot_def no_letter_ahead_def subfigure_tail_def number_def
  PATTERNS_def py_int_def make_reference_def all_references_def ref_key_def extract_references_def
  finditer_def

subsection \<open>Facts about the last loop\<close>

lemma unique_refs_subset: "set (unique_refs rs seen) \<subseteq> set rs"
  by (induction rs arbitrary: seen) auto

lemma unique_refs_unseen: "r \<in> set (unique_refs rs seen) \<Longrightarrow> ref_key r \<notin> seen"
  by (induction rs arbitrary: seen) (auto split: if_splits)

lemma unique_refs_distinct: "distinct (map ref_key (unique_refs rs seen))"
proof (induction rs arbitrary: seen)
  case Nil
  show ?case by simp
next
  case (Cons r rs)
  have "\<forall>x\<in>set (unique_refs rs (insert (ref_key r) seen)). ref_key x \<noteq> ref_key r"
    using unique_refs_unseen by blast
  then have "ref_key r \<notin> ref_key ` set (unique_refs rs (insert (ref_key r) seen))"
    by (metis imageE)
  with Cons show ?case by simp
qed

lemma unique_refs_sorted:
  "sorted (map ref_start rs) \<Longrightarrow> sorted (map ref_start (unique_refs rs seen))"
proof (induction rs arbitrary: seen)
  case Nil
  show ?case by simp
next
  case (Cons r rs)
  from Cons.prems have s: "sorted (map ref_start rs)" and l: "\<forall>x\<in>set rs. ref_start r \<le> ref_start x"
    by simp_all
  from l unique_refs_subset [of rs "insert (ref_key r) seen"]
  have "\<forall>x\<in>set (unique_refs rs (insert (ref_key r) seen)). ref_start r \<le> ref_start x" by blast
  with Cons.IH [OF s] show ?case by simp
qed

lemma unique_refs_first:
  "r \<in> set (unique_refs rs seen) \<longleftrightarrow>
     ref_key r \<notin> seen \<and> find (\<lambda>x. ref_key x = ref_key r) rs = Some r"
proof (induction rs arbitrary: seen)
  case Nil
  show ?case by simp
next
  case (Cons a rs)
  show ?case
  proof (cases "ref_key a = ref_key r")
    case True
    have "r \<notin> set (unique_refs rs (insert (ref_key a) seen))"
      using unique_refs_unseen [of r rs "insert (ref_key a) seen"] True by auto
    with True show ?thesis by (auto simp: Cons.IH)
  next
    case False
    then show ?thesis by (auto simp: Cons.IH)
  qed
qed

lemma find_sorted_least:
  assumes "sorted (map f rs)" and "find P rs = Some u" and "r \<in> set rs" and "P r"
  shows "f u \<le> f r"
  using assms
proof (induction rs)
  case Nil
  then show ?case by simp
next
  case (Cons a rs)
  show ?case
  proof (cases "P a")
    case True
    with Cons.prems have "u = a" by simp
    with Cons.prems(1,3) show ?thesis by auto
  next
    case False
    with Cons.prems have "find P rs = Some u" "r \<in> set rs" "sorted (map f rs)" by auto
    with Cons.IH Cons.prems(4) show ?thesis by blast
  qed
qed

lemma extract_references_sorted: "sorted (map ref_start (extract_references s))"
  unfolding extract_references_def by (rule unique_refs_sorted) simp

lemma extract_references_distinct: "distinct (map ref_key (extract_references s))"
  unfolding extract_references_def by (rule unique_refs_distinct)

lemma extract_references_subset: "set (extract_references s) \<subseteq> set (all_references s)"
  unfolding extract_references_def using unique_refs_subset [of "sort_key ref_start (all_references s)" "{}"]
  by simp

lemma extract_references_earliest:
  assumes "r \<in> set (all_references s)"
  shows "\<exists>u\<in>set (extract_references s). ref_key u = ref_key r \<and> ref_start u \<le> ref_start r"
proof -
  let ?rs = "sort_key ref_start (all_references s)"
  from assms have r: "r \<in> set ?rs" by simp
  then obtain u where u: "find (\<lambda>x. ref_key x = ref_key r) ?rs = Some u"
    by (cases "find (\<lambda>x. ref_key x = ref_key r) ?rs") (auto simp: find_None_iff)
  then have k: "ref_key u = ref_key r" by (auto dest: find_Some_iff [THEN iffD1])
  with u have "find (\<lambda>x. ref_key x = ref_key u) ?rs = Some u" by simp
  then have "u \<in> set (extract_references s)"
    unfolding extract_references_def by (simp add: unique_refs_first)
  moreover have "ref_start u \<le> ref_start r"
    by (rule find_sorted_least [OF _ u r]) simp_all
  ultimately show ?thesis using k by blast
qed

subsection \<open>Example texts\<close>

lemma refs_figure_3a:
  "extract_references (codes ''Figure 3a'') =
     [\<lparr>ref_text = codes ''Figure 3a'', ref_figure = 3, ref_subfigure = Some (codes ''a''),
       ref_start = 0, ref_end = 9\<rparr>]"
  by (simp add: eval_defs)

lemma refs_figure_3a_twice:
  "extract_references (codes ''Figure 3a Figure 3a'') =
     [\<lparr>ref_text = codes ''Figure 3a '', ref_figure = 3, ref_subfigure = Some (codes ''a''),
       ref_start = 0, ref_end = 10\<rparr>]"
  by (simp add: eval_defs)

lemma refs_figure_3a_and_3:
  "extract_references (codes ''Figure 3a Figure 3'') =
     [\<lparr>ref_text = codes ''Figure 3a '', ref_figure = 3, ref_subfigure = Some (codes ''a''),
       ref_start = 0, ref_end = 10\<rparr>,
      \<lparr>ref_text = codes ''Figure 3'', ref_figure = 3, ref_subfigure = None,
       ref_start = 10, ref_end = 18\<rparr>]"
  by (simp add: eval_defs)

lemma refs_figure_3_The:
  "extract_references (codes ''Figure 3. The'') =
     [\<lparr>ref_text = codes ''Figure 3. T'', ref_figure = 3, ref_subfigure = Some (codes ''T''),
       ref_start = 0, ref_end = 11\<rparr>,
      \<lparr>ref_text = codes ''Figure 3'', ref_figure = 3, ref_subfigure = None,
       ref_start = 0, ref_end = 8\<rparr>]"
  by (simp add: eval_defs)

lemma refs_figure_3_The_no_stop:
  "extract_references (codes ''Figure 3 The'') =
     [\<lparr>ref_text = codes ''Figure 3 T'', ref_figure = 3, ref_subfigure = Some (codes ''T''),
       ref_start = 0, ref_end = 10\<rparr>]"
  by (simp add: eval_defs)

lemma refs_figure_1: "map ref_figure (extract_references (codes ''Figure 1'')) = [1]"
  by (simp add: eval_defs)

lemma refs_figure_2: "map ref_figure (extract_references (codes ''Figure 2'')) = [2]"
  by (simp add: eval_defs)

lemma refs_figure_5: "map ref_figure (extract_references (codes ''Figure 5'')) = [5]"
  by (simp add: eval_defs)

section \<open>Matching figures to images (agents/smart\_agent.py)\<close>

text \<open>
  An entry of \<^verbatim>\<open>self.all_images\<close>: \<^verbatim>\<open>{"id", "path", "page", "size"}\<close>.
\<close>

record image =
  img_id :: nat
  img_path :: string
  img_page :: int
  img_size :: nat

text \<open>
  A value of \<^verbatim>\<open>self.figure_map\<close>:
  \<^verbatim>\<open>{"path", "page", "subfigures", "split_attempted"}\<close>; the dictionary
  \<^verbatim>\<open>subfigures\<close> is a list of label and path in insertion order.
\<close>

record figure_record =
  fr_path :: string
  fr_page :: int
  fr_subfigures :: "(string \<times> string) list"
  fr_split_attempted :: bool

text \<open>
  Dictionaries keep their insertion order, so they are association lists, written with
  \<open>AList.update\<close> (replace the value in place, or add the key at the end) and read with
  \<open>map_of\<close>.  \<^verbatim>\<open>figure_map[n] = None\<close> is the entry \<open>(n, None)\<close>.
\<close>

type_synonym figure_map = "(nat \<times> figure_record option) list"
type_synonym figure_pages = "(nat \<times> int list) list"

text \<open>
  The first loop of \<^verbatim>\<open>_match_figures_intelligently\<close>: for each page text, in order,
  and each reference found on it, in order, the page is recorded for the figure number.
  A page text is given here by its page number and the figure numbers of its references.
\<close>

definition add_page :: "nat \<Rightarrow> int \<Rightarrow> figure_pages \<Rightarrow> figure_pages" where
  "add_page fig_num page fp =
     (let fp1 = (if fig_num \<notin> set (map fst fp) then AList.update fig_num [] fp else fp) in
      case map_of fp1 fig_num of
        None \<Rightarrow> fp1
      | Some pages \<Rightarrow>
          if page \<notin> set pages then AList.update fig_num (pages @ [page]) fp1 else fp1)"

fun collect_figure_pages :: "(int \<times> nat list) list \<Rightarrow> figure_pages \<Rightarrow> figure_pages" where
  "collect_figure_pages [] fp = fp"
| "collect_figure_pages ((page, refs) # texts) fp =
     collect_figure_pages texts (fold (\<lambda>fig_num. add_page fig_num page) refs fp)"

text \<open>\<^verbatim>\<open>min(pages)\<close> raises \<^verbatim>\<open>ValueError\<close> on an empty list.\<close>

definition py_min :: "int list \<Rightarrow> py_error + int" where
  "py_min pages = (if pages = [] then Inl ValueError else Inr (Min (set pages)))"

text \<open>The pages \<^verbatim>\<open>first_mention_page + offset\<close> for the offsets \<^verbatim>\<open>range(-2, 3)\<close> that are positive.\<close>

definition search_pages :: "int \<Rightarrow> int list" where
  "search_pages first_mention_page =
     filter (\<lambda>page. page > 0) (map (\<lambda>offset. first_mention_page + offset) [-2, -1, 0, 1, 2])"

definition candidate_images :: "image list \<Rightarrow> int list \<Rightarrow> nat set \<Rightarrow> image list" where
  "candidate_images all_images pages used_image_ids =
     filter (\<lambda>img. img_page img \<in> set pages \<and> img_id img \<notin> used_image_ids) all_images"

text \<open>The three tiers: above 50000 bytes, else above 20000 bytes, else every candidate.\<close>

definition large_images :: "image list \<Rightarrow> image list" where
  "large_images candidates =
     (let large = filter (\<lambda>img. img_size img > 50000) candidates in
      if large \<noteq> [] then large
      else let large' = filter (\<lambda>img. img_size img > 20000) candidates in
           if large' \<noteq> [] then large' else candidates)"

text \<open>
  \<^verbatim>\<open>max(large_images, key=lambda x: x["size"])\<close>: the first image of the greatest size;
  \<^verbatim>\<open>ValueError\<close> on an empty list.
\<close>

fun max_from :: "image \<Rightarrow> image list \<Rightarrow> image" where
  "max_from best [] = best"
| "max_from best (x # xs) = max_from (if img_size x > img_size best then x else best) xs"

definition max_by_size :: "image list \<Rightarrow> py_error + image" where
  "max_by_size imgs = (case imgs of [] \<Rightarrow> Inl ValueError | x # xs \<Rightarrow> Inr (max_from x xs))"

definition new_record :: "image \<Rightarrow> figure_record" where
  "new_record img =
     \<lparr>fr_path = img_path img, fr_page = img_page img, fr_subfigures = [],
      fr_split_attempted = False\<rparr>"

text \<open>
  Strategy 1, the loop \<^verbatim>\<open>for fig_num in sorted(figure_pages.keys())\<close>.  Its state is
  \<^verbatim>\<open>figure_map\<close> with \<^verbatim>\<open>used_image_ids\<close>.
\<close>

fun primary_loop ::
  "figure_pages \<Rightarrow> image list \<Rightarrow> nat list \<Rightarrow> figure_map \<times> nat set
     \<Rightarrow> py_error + (figure_map \<times> nat set)" where
  "primary_loop fp all_images [] st = Inr st"
| "primary_loop fp all_images (fig_num # rest) (fm, used) =
     (case map_of fp fig_num of
        None \<Rightarrow> Inl KeyError
      | Some pages \<Rightarrow>
         (case py_min pages of
            Inl e \<Rightarrow> Inl e
          | Inr first_mention_page \<Rightarrow>
             (let candidates = candidate_images all_images (search_pages first_mention_page) used in
              if candidates = []
              then primary_loop fp all_images rest (AList.update fig_num None fm, used)
              else
                case max_by_size (large_images candidates) of
                  Inl e \<Rightarrow> Inl e
                | Inr best_image \<Rightarrow>
                    primary_loop fp all_images rest
                      (AList.update fig_num (Some (new_record best_image)) fm,
                       insert (img_id best_image) used))))"

text \<open>
  Strategy 2.  \<^verbatim>\<open>while next_fig_num in figure_map: next_fig_num += 1\<close> ends, since the
  dictionary has finitely many keys.
\<close>

function skip_taken :: "figure_map \<Rightarrow> nat \<Rightarrow> nat" where
  "skip_taken fm n = (if n \<in> set (map fst fm) then skip_taken fm (Suc n) else n)"
  by pat_completeness auto
termination
proof (relation "measure (\<lambda>(fm, n). Suc (Max (set (map fst fm))) - n)")
  show "wf (measure (\<lambda>(fm, n). Suc (Max (set (map fst fm))) - n))" by simp
next
  fix fm :: figure_map and n :: nat
  assume "n \<in> set (map fst fm)"
  then have "n \<le> Max (set (map fst fm))" by (intro Max_ge) simp_all
  then show "((fm, Suc n), (fm, n)) \<in> measure (\<lambda>(fm, n). Suc (Max (set (map fst fm))) - n)"
    by simp
qed

declare skip_taken.simps [simp del]

fun fallback_loop :: "image list \<Rightarrow> figure_map \<times> nat set \<times> nat \<Rightarrow> figure_map \<times> nat set \<times> nat" where
  "fallback_loop [] st = st"
| "fallback_loop (img # imgs) (fm, used, next_fig_num) =
     (let n = skip_taken fm next_fig_num in
      fallback_loop imgs (AList.update n (Some (new_record img)) fm, insert (img_id img) used, Suc n))"

definition unmatched_large_images :: "image list \<Rightarrow> nat set \<Rightarrow> image list" where
  "unmatched_large_images all_images used =
     sort_key (\<lambda>x. (img_page x, - int (img_size x)))
       (filter (\<lambda>img. img_id img \<notin> used \<and> img_size img > 50000) all_images)"

definition fallback_pass :: "image list \<Rightarrow> figure_map \<times> nat set \<Rightarrow> figure_map \<times> nat set" where
  "fallback_pass all_images st =
     (case st of (fm, used) \<Rightarrow>
        let unmatched = unmatched_large_images all_images used in
        if unmatched \<noteq> [] then
          let next_fig_num = (if fm \<noteq> [] then Max (set (map fst fm)) + 1 else 1) in
          case fallback_loop unmatched (fm, used, next_fig_num) of (fm', used', _) \<Rightarrow> (fm', used')
        else (fm, used))"

text \<open>The two strategies on a given dictionary \<^verbatim>\<open>figure_pages\<close>.\<close>

definition match_figures :: "figure_pages \<Rightarrow> image list \<Rightarrow> py_error + figure_map" where
  "match_figures fp all_images =
     (case primary_loop fp all_images (sort (map fst fp)) ([], {}) of
        Inl e \<Rightarrow> Inl e
      | Inr st \<Rightarrow> Inr (fst (fallback_pass all_images st)))"

text \<open>The function once the references of every page text are extracted.\<close>

definition match_page_refs ::
  "(int \<times> nat list) list \<Rightarrow> image list \<Rightarrow> py_error + figure_map" where
  "match_page_refs refs all_images =
     match_figures (collect_figure_pages refs []) all_images"

text \<open>
  \<^verbatim>\<open>_match_figures_intelligently\<close>, on \<^verbatim>\<open>self.texts\<close>, a list of page number and
  page content, and \<^verbatim>\<open>self.all_images\<close>.
\<close>

definition page_refs :: "(int \<times> ustr) list \<Rightarrow> (int \<times> nat list) list" where
  "page_refs texts =
     map (\<lambda>(page, content). (page, map ref_figure (extract_references content))) texts"

definition match_figures_intelligently ::
  "(int \<times> ustr) list \<Rightarrow> image list \<Rightarrow> py_error + figure_map" where
  "match_figures_intelligently texts all_images = match_page_refs (page_refs texts) all_images"

subsection \<open>The images of a document (load\_pdf)\<close>

text \<open>
  \<^verbatim>\<open>str(idx)\<close> inside the f-string: the decimal digits of a natural number.
\<close>

definition digit_char :: "nat \<Rightarrow> char" where
  "digit_char d = ''0123456789'' ! d"

function str_nat :: "nat \<Rightarrow> string" where
  "str_nat n = (if n < 10 then [digit_char n] else str_nat (n div 10) @ [digit_char (n mod 10)])"
  by pat_completeness auto
termination
  by (relation "measure id") auto

declare str_nat.simps [simp del]

text \<open>
  An entry of \<^verbatim>\<open>pdf_data["figures"]\<close>.  Of the bytes \<^verbatim>\<open>data\<close> only the length
  is kept, which is all that the matcher reads.  The bounding box is a tuple
  \<^verbatim>\<open>(x0, y0, width, height)\<close>, a rectangle or \<^verbatim>\<open>None\<close>, by extraction method.
\<close>

datatype bbox = NoBox | Box rect | Tuple real real real real

record fig_data =
  fd_page :: int
  fd_index :: nat
  fd_data_len :: nat
  fd_ext :: string
  fd_bbox :: bbox
  fd_method :: string

text \<open>
  \<^verbatim>\<open>str(image_dir / f"raw_{idx}.{ext}")\<close> and the loop over
  \<^verbatim>\<open>enumerate(pdf_data["figures"])\<close> that fills \<^verbatim>\<open>self.all_images\<close>.
\<close>

definition raw_path :: "string \<Rightarrow> nat \<Rightarrow> string \<Rightarrow> string" where
  "raw_path image_dir idx ext = image_dir @ ''/raw_'' @ str_nat idx @ ''.'' @ ext"

definition all_images_of :: "string \<Rightarrow> fig_data list \<Rightarrow> image list" where
  "all_images_of image_dir figures =
     map (\<lambda>(idx, fig_data).
            \<lparr>img_id = idx, img_path = raw_path image_dir idx (fd_ext fig_data),
             img_page = fd_page fig_data, img_size = fd_data_len fig_data\<rparr>)
         (enumerate 0 figures)"

text \<open>
  The figure map that \<^verbatim>\<open>load_pdf\<close> stores, from the image directory, the page texts
  and the figures of the parsed document.
\<close>

definition load_pdf :: "string \<Rightarrow> (int \<times> ustr) list \<Rightarrow> fig_data list \<Rightarrow> py_error + figure_map" where
  "load_pdf image_dir texts figures =
     match_figures_intelligently texts (all_images_of image_dir figures)"

text \<open>A figure of the region-crop method with the given page and number of bytes.\<close>

definition fig_of :: "int \<Rightarrow> nat \<Rightarrow> fig_data" where
  "fig_of p n = \<lparr>fd_page = p, fd_index = 0, fd_data_len = n, fd_ext = ''png'', fd_bbox = NoBox, fd_method = ''region_crop''\<rparr>"

subsection \<open>The dictionary of cited pages\<close>

text \<open>
  What the first loop keeps true of \<^verbatim>\<open>figure_pages\<close>: the keys are distinct and no list
  of pages is empty.
\<close>

definition pages_ok :: "figure_pages \<Rightarrow> bool" where
  "pages_ok fp \<longleftrightarrow> distinct (map fst fp) \<and> (\<forall>k v. map_of fp k = Some v \<longrightarrow> v \<noteq> [])"

lemma map_of_add_page:
  "map_of (add_page k p fp) =
     (map_of fp)(k \<mapsto> (case map_of fp k of None \<Rightarrow> [p]
                          | Some ps \<Rightarrow> if p \<in> set ps then ps else ps @ [p]))"
proof (cases "map_of fp k")
  case None
  then have "k \<notin> set (map fst fp)" by (simp add: map_of_eq_None_iff)
  with None show ?thesis by (simp add: add_page_def update_conv')
next
  case (Some ps)
  then have "k \<in> set (map fst fp)" by (metis map_of_eq_None_iff option.distinct(1) set_map)
  with Some show ?thesis by (auto simp: add_page_def update_conv')
qed

lemma distinct_add_page: "distinct (map fst fp) \<Longrightarrow> distinct (map fst (add_page k p fp))"
  by (simp add: add_page_def Let_def distinct_update split: option.splits)

lemma add_page_ok: "pages_ok fp \<Longrightarrow> pages_ok (add_page k p fp)"
  unfolding pages_ok_def
  by (intro conjI distinct_add_page) (auto simp: map_of_add_page split: option.splits if_splits)

lemma fold_add_page_ok: "pages_ok fp \<Longrightarrow> pages_ok (fold (\<lambda>k. add_page k p) refs fp)"
  by (induction refs arbitrary: fp) (simp_all add: add_page_ok)

lemma collect_ok: "pages_ok fp \<Longrightarrow> pages_ok (collect_figure_pages texts fp)"
  by (induction texts fp rule: collect_figure_pages.induct) (simp_all add: fold_add_page_ok)

lemma collect_ok_empty: "pages_ok (collect_figure_pages texts [])"
  by (rule collect_ok) (simp add: pages_ok_def)

subsection \<open>Choosing the image\<close>

lemma max_from_in: "max_from b xs \<in> set (b # xs)"
  by (induction xs arbitrary: b) auto

lemma large_images_subset: "set (large_images cs) \<subseteq> set cs"
  by (auto simp: large_images_def Let_def)

lemma large_images_nonempty: "cs \<noteq> [] \<Longrightarrow> large_images cs \<noteq> []"
  by (auto simp: large_images_def Let_def)

lemma max_by_size_total: "cs \<noteq> [] \<Longrightarrow> \<exists>b. max_by_size (large_images cs) = Inr b"
  using large_images_nonempty [of cs] by (cases "large_images cs") (auto simp: max_by_size_def)

lemma max_by_size_in: "max_by_size xs = Inr b \<Longrightarrow> b \<in> set xs"
  using max_from_in by (cases xs) (auto simp: max_by_size_def simp del: set_ConsD)

lemma best_is_candidate:
  assumes "max_by_size (large_images (candidate_images imgs ps used)) = Inr b"
  shows "b \<in> set imgs \<and> img_page b \<in> set ps \<and> img_id b \<notin> used"
proof -
  from max_by_size_in [OF assms] large_images_subset
  have "b \<in> set (candidate_images imgs ps used)" by blast
  then show ?thesis by (simp add: candidate_images_def)
qed

subsection \<open>The primary loop\<close>

lemma primary_loop_append:
  "primary_loop fp imgs (ks @ ks') st =
     (case primary_loop fp imgs ks st of Inl e \<Rightarrow> Inl e | Inr st' \<Rightarrow> primary_loop fp imgs ks' st')"
proof (induction ks arbitrary: st)
  case Nil
  show ?case by simp
next
  case (Cons k ks)
  obtain fm used where st: "st = (fm, used)" by (cases st)
  show ?case unfolding st
    by (simp add: Cons Let_def split: option.splits sum.splits)
qed

lemma primary_loop_total:
  assumes "\<forall>k\<in>set ks. \<exists>v. map_of fp k = Some v \<and> v \<noteq> []"
  shows "\<exists>st'. primary_loop fp imgs ks st = Inr st'"
  using assms
proof (induction ks arbitrary: st)
  case Nil
  show ?case by simp
next
  case (Cons k ks)
  obtain fm used where st: "st = (fm, used)" by (cases st)
  from Cons.prems obtain v where v: "map_of fp k = Some v" "v \<noteq> []" by auto
  from Cons.prems have r: "\<forall>k\<in>set ks. \<exists>v. map_of fp k = Some v \<and> v \<noteq> []" by simp
  let ?c = "candidate_images imgs (search_pages (Min (set v))) used"
  show ?case
  proof (cases "?c = []")
    case True
    with v Cons.IH [OF r] show ?thesis unfolding st by (simp add: py_min_def)
  next
    case False
    from max_by_size_total [OF False] obtain b where "max_by_size (large_images ?c) = Inr b" ..
    with False v Cons.IH [OF r] show ?thesis unfolding st by (simp add: py_min_def)
  qed
qed

lemma primary_loop_keys_total:
  assumes "pages_ok fp"
  shows "\<exists>st'. primary_loop fp imgs (sort (map fst fp)) st = Inr st'"
proof (rule primary_loop_total)
  show "\<forall>k\<in>set (sort (map fst fp)). \<exists>v. map_of fp k = Some v \<and> v \<noteq> []"
  proof
    fix k assume "k \<in> set (sort (map fst fp))"
    then have "k \<in> fst ` set fp" by simp
    then obtain v where "map_of fp k = Some v" by (metis domD dom_map_of_conv_image_fst)
    with assms show "\<exists>v. map_of fp k = Some v \<and> v \<noteq> []" by (auto simp: pages_ok_def)
  qed
qed

text \<open>
  \<open>exclusive\<close>: two different figure numbers with a record have different paths.
  \<open>from_used\<close>: every record was made from an image of the list whose id is marked as
  used.
\<close>

definition exclusive :: "figure_map \<Rightarrow> bool" where
  "exclusive fm \<longleftrightarrow>
     (\<forall>k k' r r'. k \<noteq> k' \<and> map_of fm k = Some (Some r) \<and> map_of fm k' = Some (Some r')
        \<longrightarrow> fr_path r \<noteq> fr_path r')"

definition from_used :: "image list \<Rightarrow> figure_map \<Rightarrow> nat set \<Rightarrow> bool" where
  "from_used imgs fm used \<longleftrightarrow>
     (\<forall>k r. map_of fm k = Some (Some r)
        \<longrightarrow> (\<exists>img\<in>set imgs. r = new_record img \<and> img_id img \<in> used))"

lemma new_record_path [simp]: "fr_path (new_record img) = img_path img"
  by (simp add: new_record_def)

lemma primary_step_inv:
  assumes d: "distinct (map img_path imgs)"
    and e: "exclusive fm" and u: "from_used imgs fm used"
    and b: "b \<in> set imgs" "img_id b \<notin> used"
  shows "exclusive (AList.update k (Some (new_record b)) fm)
       \<and> from_used imgs (AList.update k (Some (new_record b)) fm) (insert (img_id b) used)"
proof -
  have fresh: "fr_path r \<noteq> img_path b" if "map_of fm k' = Some (Some r)" for k' r
  proof
    assume p: "fr_path r = img_path b"
    from u that obtain img where i: "img \<in> set imgs" "r = new_record img" "img_id img \<in> used"
      unfolding from_used_def by blast
    from d i(1) b(1) p i(2) have "img = b" by (auto simp: distinct_map dest: inj_onD)
    with i(3) b(2) show False by simp
  qed
  have "exclusive (AList.update k (Some (new_record b)) fm)"
    unfolding exclusive_def update_conv'
  proof (intro allI impI)
    fix k1 k2 r1 r2
    assume h: "k1 \<noteq> k2 \<and> ((map_of fm)(k \<mapsto> Some (new_record b))) k1 = Some (Some r1)
               \<and> ((map_of fm)(k \<mapsto> Some (new_record b))) k2 = Some (Some r2)"
    show "fr_path r1 \<noteq> fr_path r2"
    proof (cases "k1 = k")
      case True
      with h have "r1 = new_record b" "map_of fm k2 = Some (Some r2)" by (auto split: if_splits)
      with fresh [of k2 r2] show ?thesis by simp
    next
      case False
      show ?thesis
      proof (cases "k2 = k")
        case True
        with h False have "r2 = new_record b" "map_of fm k1 = Some (Some r1)" by (auto split: if_splits)
        with fresh [of k1 r1] show ?thesis by simp
      next
        case k2: False
        with False h e show ?thesis unfolding exclusive_def by (auto split: if_splits)
      qed
    qed
  qed
  moreover have "from_used imgs (AList.update k (Some (new_record b)) fm) (insert (img_id b) used)"
    using u b(1) unfolding from_used_def update_conv' by (auto split: if_splits)
  ultimately show ?thesis ..
qed

lemma none_step_inv:
  assumes "exclusive fm" "from_used imgs fm used"
  shows "exclusive (AList.update k None fm) \<and> from_used imgs (AList.update k None fm) used"
  using assms unfolding exclusive_def from_used_def update_conv'
  by (auto split: if_splits)

lemma primary_loop_inv:
  assumes "distinct (map img_path imgs)"
  shows "exclusive fm \<Longrightarrow> from_used imgs fm used \<Longrightarrow>
         primary_loop fp imgs ks (fm, used) = Inr (fm', used') \<Longrightarrow>
         exclusive fm' \<and> from_used imgs fm' used'"
proof (induction ks arbitrary: fm used)
  case Nil
  then show ?case by simp
next
  case (Cons k ks)
  from Cons.prems(3) obtain v first where v: "map_of fp k = Some v" "py_min v = Inr first"
    by (auto split: option.splits sum.splits)
  let ?c = "candidate_images imgs (search_pages first) used"
  show ?case
  proof (cases "?c = []")
    case True
    with v Cons.prems(3) have "primary_loop fp imgs ks (AList.update k None fm, used) = Inr (fm', used')"
      by simp
    with none_step_inv [OF Cons.prems(1,2)] show ?thesis by (intro Cons.IH) auto
  next
    case False
    with v Cons.prems(3) obtain b where b: "max_by_size (large_images ?c) = Inr b"
      and l: "primary_loop fp imgs ks (AList.update k (Some (new_record b)) fm, insert (img_id b) used)
                = Inr (fm', used')"
      by (auto split: sum.splits)
    from best_is_candidate [OF b] have "b \<in> set imgs" "img_id b \<notin> used" by simp_all
    from primary_step_inv [OF assms Cons.prems(1,2) this] l show ?thesis by (intro Cons.IH) auto
  qed
qed

lemma primary_loop_other:
  "primary_loop fp imgs ks (fm, used) = Inr (fm', used') \<Longrightarrow> k \<notin> set ks \<Longrightarrow>
     map_of fm' k = map_of fm k"
proof (induction ks arbitrary: fm used)
  case Nil
  then show ?case by simp
next
  case (Cons a ks)
  from Cons.prems(1) obtain v first where v: "map_of fp a = Some v" "py_min v = Inr first"
    by (auto split: option.splits sum.splits)
  from Cons.prems(2) have ne: "k \<noteq> a" "k \<notin> set ks" by auto
  let ?c = "candidate_images imgs (search_pages first) used"
  show ?case
  proof (cases "?c = []")
    case True
    with v Cons.prems(1) have "primary_loop fp imgs ks (AList.update a None fm, used) = Inr (fm', used')"
      by simp
    from Cons.IH [OF this ne(2)] ne(1) show ?thesis by (simp add: update_conv')
  next
    case False
    with v Cons.prems(1) obtain b where
      l: "primary_loop fp imgs ks (AList.update a (Some (new_record b)) fm, insert (img_id b) used)
                = Inr (fm', used')"
      by (auto split: sum.splits)
    from Cons.IH [OF this ne(2)] ne(1) show ?thesis by (simp add: update_conv')
  qed
qed

lemma primary_loop_keys:
  "primary_loop fp imgs ks (fm, used) = Inr (fm', used') \<Longrightarrow>
     fst ` set fm' = fst ` set fm \<union> set ks"
proof (induction ks arbitrary: fm used)
  case Nil
  then show ?case by simp
next
  case (Cons a ks)
  from Cons.prems(1) obtain v first where v: "map_of fp a = Some v" "py_min v = Inr first"
    by (auto split: option.splits sum.splits)
  let ?c = "candidate_images imgs (search_pages first) used"
  show ?case
  proof (cases "?c = []")
    case True
    with v Cons.prems(1) have "primary_loop fp imgs ks (AList.update a None fm, used) = Inr (fm', used')"
      by simp
    from Cons.IH [OF this] show ?thesis by (simp add: dom_update)
  next
    case False
    with v Cons.prems(1) obtain b where
      l: "primary_loop fp imgs ks (AList.update a (Some (new_record b)) fm, insert (img_id b) used)
                = Inr (fm', used')"
      by (auto split: sum.splits)
    from Cons.IH [OF this] show ?thesis by (simp add: dom_update)
  qed
qed

subsection \<open>The fallback pass\<close>

lemma skip_taken_fresh: "skip_taken fm n \<notin> set (map fst fm)"
  by (induction fm n rule: skip_taken.induct) (subst skip_taken.simps, simp)

text \<open>
  \<open>from_images\<close>: every record was made from an image of the list.  \<open>unbound\<close>: no
  record has the path of the image.
\<close>

definition from_images :: "image list \<Rightarrow> figure_map \<Rightarrow> bool" where
  "from_images imgs fm \<longleftrightarrow>
     (\<forall>k r. map_of fm k = Some (Some r) \<longrightarrow> (\<exists>img\<in>set imgs. r = new_record img))"

definition unbound :: "figure_map \<Rightarrow> image \<Rightarrow> bool" where
  "unbound fm img \<longleftrightarrow> (\<forall>k r. map_of fm k = Some (Some r) \<longrightarrow> fr_path r \<noteq> img_path img)"

lemma fallback_loop_inv:
  "exclusive fm \<Longrightarrow> from_images imgs fm \<Longrightarrow> set ims \<subseteq> set imgs \<Longrightarrow>
   \<forall>img\<in>set ims. unbound fm img \<Longrightarrow> distinct (map img_path ims) \<Longrightarrow>
   exclusive (fst (fallback_loop ims (fm, used, n)))
   \<and> from_images imgs (fst (fallback_loop ims (fm, used, n)))"
proof (induction ims arbitrary: fm used n)
  case Nil
  then show ?case by simp
next
  case (Cons img ims)
  let ?n = "skip_taken fm n"
  let ?fm = "AList.update ?n (Some (new_record img)) fm"
  have fr: "map_of fm ?n = None"
    using skip_taken_fresh [of fm n] by (simp add: map_of_eq_None_iff)
  from Cons.prems(4) have ub: "unbound fm img" by simp
  have e: "exclusive ?fm"
    unfolding exclusive_def update_conv'
  proof (intro allI impI)
    fix k1 k2 r1 r2
    assume h: "k1 \<noteq> k2 \<and> ((map_of fm)(?n \<mapsto> Some (new_record img))) k1 = Some (Some r1)
               \<and> ((map_of fm)(?n \<mapsto> Some (new_record img))) k2 = Some (Some r2)"
    show "fr_path r1 \<noteq> fr_path r2"
    proof (cases "k1 = ?n")
      case True
      with h have "r1 = new_record img" "map_of fm k2 = Some (Some r2)" by (auto split: if_splits)
      with ub show ?thesis unfolding unbound_def by fastforce
    next
      case False
      show ?thesis
      proof (cases "k2 = ?n")
        case True
        with h False have "r2 = new_record img" "map_of fm k1 = Some (Some r1)" by (auto split: if_splits)
        with ub show ?thesis unfolding unbound_def by fastforce
      next
        case k2: False
        with False h Cons.prems(1) show ?thesis unfolding exclusive_def by (auto split: if_splits)
      qed
    qed
  qed
  have f: "from_images imgs ?fm"
    using Cons.prems(2,3) unfolding from_images_def update_conv' by (auto split: if_splits)
  have s: "set ims \<subseteq> set imgs" using Cons.prems(3) by simp
  have d: "distinct (map img_path ims)" using Cons.prems(5) by simp
  have u: "\<forall>i\<in>set ims. unbound ?fm i"
  proof
    fix i assume i: "i \<in> set ims"
    with Cons.prems(4) have "unbound fm i" by simp
    moreover from i Cons.prems(5) have "img_path i \<noteq> img_path img" by (auto simp: image_iff)
    ultimately show "unbound ?fm i" unfolding unbound_def update_conv' by (auto split: if_splits)
  qed
  from Cons.IH [OF e f s u d, of "insert (img_id img) used" "Suc ?n"] show ?case
    by (simp add: Let_def)
qed

lemma fallback_loop_keeps:
  "k \<in> fst ` set fm \<Longrightarrow> map_of (fst (fallback_loop ims (fm, used, n))) k = map_of fm k"
proof (induction ims arbitrary: fm used n)
  case Nil
  then show ?case by simp
next
  case (Cons img ims)
  let ?n = "skip_taken fm n"
  let ?fm = "AList.update ?n (Some (new_record img)) fm"
  from Cons.prems skip_taken_fresh [of fm n] have ne: "k \<noteq> ?n" by (auto simp: image_iff)
  from Cons.prems have "k \<in> fst ` set ?fm" by (simp add: dom_update)
  from Cons.IH [OF this, of "insert (img_id img) used" "Suc ?n"] ne show ?case
    by (simp add: Let_def update_conv')
qed

lemma fallback_pass_keeps:
  "k \<in> fst ` set fm \<Longrightarrow> map_of (fst (fallback_pass imgs (fm, used))) k = map_of fm k"
  using fallback_loop_keeps [of k fm]
  by (auto simp: fallback_pass_def Let_def split: prod.splits) (metis fst_conv)

lemma unmatched_unbound:
  assumes d: "distinct (map img_path imgs)" and u: "from_used imgs fm used"
    and i: "img \<in> set (unmatched_large_images imgs used)"
  shows "unbound fm img"
  unfolding unbound_def
proof (intro allI impI)
  fix k r assume b: "map_of fm k = Some (Some r)"
  from i have ii: "img \<in> set imgs" "img_id img \<notin> used" by (simp_all add: unmatched_large_images_def)
  from u b obtain img' where i': "img' \<in> set imgs" "r = new_record img'" "img_id img' \<in> used"
    unfolding from_used_def by blast
  show "fr_path r \<noteq> img_path img"
  proof
    assume "fr_path r = img_path img"
    with d ii(1) i'(1,2) have "img' = img" by (auto simp: distinct_map dest: inj_onD)
    with ii(2) i'(3) show False by simp
  qed
qed

lemma unmatched_distinct:
  assumes "distinct (map img_path imgs)"
  shows "distinct (map img_path (unmatched_large_images imgs used))"
proof -
  let ?f = "filter (\<lambda>img. img_id img \<notin> used \<and> img_size img > 50000) imgs"
  from assms have "distinct (map img_path ?f)" by (rule distinct_map_filter)
  moreover have "mset (map img_path (unmatched_large_images imgs used)) = mset (map img_path ?f)"
    by (simp add: unmatched_large_images_def)
  ultimately show ?thesis by (metis mset_eq_imp_distinct_iff)
qed

lemma fallback_pass_inv:
  assumes d: "distinct (map img_path imgs)" and e: "exclusive fm" and u: "from_used imgs fm used"
  shows "exclusive (fst (fallback_pass imgs (fm, used)))
       \<and> from_images imgs (fst (fallback_pass imgs (fm, used)))"
proof -
  let ?un = "unmatched_large_images imgs used"
  have f: "from_images imgs fm" using u unfolding from_images_def from_used_def by blast
  have s: "set ?un \<subseteq> set imgs" by (auto simp: unmatched_large_images_def)
  have ub: "\<forall>img\<in>set ?un. unbound fm img" using unmatched_unbound [OF d u] by blast
  have di: "distinct (map img_path ?un)" using d by (rule unmatched_distinct)
  show ?thesis
  proof (cases "?un = []")
    case True
    with e f show ?thesis by (simp add: fallback_pass_def)
  next
    case False
    from fallback_loop_inv [OF e f s ub di] False show ?thesis
      by (auto simp: fallback_pass_def Let_def split: prod.splits) (metis fst_conv)+
  qed
qed

lemma match_figures_exclusive:
  assumes "distinct (map img_path imgs)" and "match_figures fp imgs = Inr fm"
  shows "exclusive fm \<and> from_images imgs fm"
proof -
  from assms(2) obtain fm0 used0 where
    p: "primary_loop fp imgs (sort (map fst fp)) ([], {}) = Inr (fm0, used0)"
    and r: "fm = fst (fallback_pass imgs (fm0, used0))"
    by (auto simp: match_figures_def split: sum.splits)
  have "exclusive []" "from_used imgs [] {}" by (simp_all add: exclusive_def from_used_def)
  from primary_loop_inv [OF assms(1) this p] have "exclusive fm0" "from_used imgs fm0 used0"
    by simp_all
  from fallback_pass_inv [OF assms(1) this] r show ?thesis by simp
qed

text \<open>
  The digits of \<open>str_nat\<close> determine the number, and the path determines the digits, so
  different ids have different paths.
\<close>

definition is_digit :: "char \<Rightarrow> bool" where
  "is_digit c \<longleftrightarrow> c \<in> set ''0123456789''"

definition digits_value :: "string \<Rightarrow> nat" where
  "digits_value s = foldl (\<lambda>a c. 10 * a + (of_char c - 48)) 0 s"

lemma digit_cases:
  assumes "d < (10::nat)"
  obtains "d = 0" | "d = 1" | "d = 2" | "d = 3" | "d = 4" | "d = 5" | "d = 6" | "d = 7"
    | "d = 8" | "d = 9"
  using assms by atomize_elim arith

lemma digit_char_value: "d < 10 \<Longrightarrow> of_char (digit_char d) = (48 + d :: nat)"
  by (erule digit_cases) (simp_all add: digit_char_def)

lemma digit_char_is_digit: "d < 10 \<Longrightarrow> is_digit (digit_char d)"
  by (erule digit_cases) (simp_all add: digit_char_def is_digit_def)

lemma str_nat_value: "digits_value (str_nat n) = n"
proof (induction n rule: str_nat.induct)
  case (1 n)
  show ?case
  proof (cases "n < 10")
    case True
    then show ?thesis by (subst str_nat.simps) (simp add: digits_value_def digit_char_value)
  next
    case False
    with 1 have "digits_value (str_nat (n div 10)) = n div 10" by simp
    with False show ?thesis
      by (subst str_nat.simps) (simp add: digits_value_def digit_char_value)
  qed
qed

lemma str_nat_inj: "str_nat m = str_nat n \<Longrightarrow> m = n"
  by (metis str_nat_value)

lemma str_nat_digits: "\<forall>c\<in>set (str_nat n). is_digit c"
proof (induction n rule: str_nat.induct)
  case (1 n)
  show ?case
  proof (cases "n < 10")
    case True
    then show ?thesis by (subst str_nat.simps) (simp add: digit_char_is_digit)
  next
    case False
    with 1 show ?thesis by (subst str_nat.simps) (simp add: digit_char_is_digit)
  qed
qed

lemma raw_path_inj:
  assumes "raw_path d i e = raw_path d j e'"
  shows "i = j"
proof -
  have nd: "\<not> is_digit CHR ''.''" by (simp add: is_digit_def)
  from assms have eq: "str_nat i @ CHR ''.'' # e = str_nat j @ CHR ''.'' # e'"
    by (simp add: raw_path_def)
  have "takeWhile is_digit (str_nat i @ CHR ''.'' # e) = str_nat i"
    using str_nat_digits [of i] nd by (simp add: takeWhile_tail)
  moreover have "takeWhile is_digit (str_nat j @ CHR ''.'' # e') = str_nat j"
    using str_nat_digits [of j] nd by (simp add: takeWhile_tail)
  ultimately have "str_nat i = str_nat j" using eq by simp
  then show ?thesis by (rule str_nat_inj)
qed

lemma all_images_length [simp]: "length (all_images_of d figs) = length figs"
  by (simp add: all_images_of_def)

lemma all_images_nth:
  "i < length figs \<Longrightarrow> all_images_of d figs ! i =
     \<lparr>img_id = i, img_path = raw_path d i (fd_ext (figs ! i)),
      img_page = fd_page (figs ! i), img_size = fd_data_len (figs ! i)\<rparr>"
  by (simp add: all_images_of_def nth_enumerate_eq)


lemma all_images_distinct_paths: "distinct (map img_path (all_images_of d figs))"
  unfolding distinct_conv_nth
proof (intro allI impI)
  fix i j
  assume "i < length (map img_path (all_images_of d figs))"
    "j < length (map img_path (all_images_of d figs))" "i \<noteq> j"
  then show "map img_path (all_images_of d figs) ! i \<noteq> map img_path (all_images_of d figs) ! j"
    by (auto simp: all_images_nth dest: raw_path_inj)
qed


lemma match_page_refs_total:
  "\<exists>fm. match_page_refs refs imgs = Inr fm"
proof -
  from primary_loop_keys_total [OF collect_ok_empty, of refs imgs "([], {})"]
  obtain st where "primary_loop (collect_figure_pages refs []) imgs
      (sort (map fst (collect_figure_pages refs []))) ([], {}) = Inr st" ..
  then show ?thesis by (simp add: match_page_refs_def match_figures_def)
qed

text \<open>The page texts of scenario B, and a document with a citation far from every image.\<close>

definition ex_texts :: "(int \<times> ustr) list" where
  "ex_texts = [(3, codes ''Figure 1''), (8, codes ''Figure 2''), (9, codes ''Figure 2'')]"

definition ex_texts_far :: "(int \<times> ustr) list" where
  "ex_texts_far = [(3, codes ''Figure 1''), (20, codes ''Figure 5'')]"

lemma page_refs_ex: "page_refs ex_texts = [(3, [1]), (8, [2]), (9, [2])]"
  by (simp add: page_refs_def ex_texts_def refs_figure_1 refs_figure_2)

lemma page_refs_ex_far: "page_refs ex_texts_far = [(3, [1]), (20, [5])]"
  by (simp add: page_refs_def ex_texts_far_def refs_figure_1 refs_figure_5)

lemma sorted_distinct_split:
  "sorted ks \<Longrightarrow> distinct ks \<Longrightarrow> n \<in> set ks \<Longrightarrow>
     ks = filter (\<lambda>k. k < n) ks @ n # filter (\<lambda>k. n < k) ks"
proof (induction ks)
  case Nil
  then show ?case by simp
next
  case (Cons a ks)
  show ?case
  proof (cases "a = n")
    case True
    with Cons.prems have "\<forall>k\<in>set ks. n < k" by (auto simp: order_less_le)
    then have "filter (\<lambda>k. k < n) ks = []" "filter (\<lambda>k. n < k) ks = ks"
      by (auto simp: filter_empty_conv)
    with True show ?thesis by simp
  next
    case False
    with Cons.prems have "n \<in> set ks" "a < n" by (auto simp: order_less_le)
    with Cons show ?thesis by simp
  qed
qed

lemma str_nat_small: "n < 10 \<Longrightarrow> str_nat n = [digit_char n]"
  by (subst str_nat.simps) simp

definition ex_figs :: "fig_data list" where
  "ex_figs = [fig_of 2 90000, fig_of 3 60000, fig_of 10 70000]"

lemma ev0: "all_images_of ''data/images'' ex_figs =
   [\<lparr>img_id = 0, img_path = ''data/images/raw_0.png'', img_page = 2, img_size = 90000\<rparr>,
    \<lparr>img_id = 1, img_path = ''data/images/raw_1.png'', img_page = 3, img_size = 60000\<rparr>,
    \<lparr>img_id = 2, img_path = ''data/images/raw_2.png'', img_page = 10, img_size = 70000\<rparr>]"
  by (simp add: ex_figs_def all_images_of_def enumerate_eq_zip upt_rec raw_path_def str_nat_small digit_char_def fig_of_def)

lemma ev_fp: "collect_figure_pages [(3,[1]), (8,[2]), (9,[2])] [] = [(1, [3]), (2, [8, 9])]"
  by (simp add: add_page_def)

lemma ev1: "match_figures [(1, [3]), (2, [8, 9])]
   [\<lparr>img_id = 0, img_path = ''data/images/raw_0.png'', img_page = 2, img_size = 90000\<rparr>,
    \<lparr>img_id = 1, img_path = ''data/images/raw_1.png'', img_page = 3, img_size = 60000\<rparr>,
    \<lparr>img_id = 2, img_path = ''data/images/raw_2.png'', img_page = 10, img_size = 70000\<rparr>] = 
   Inr [(1, Some \<lparr>fr_path = ''data/images/raw_0.png'', fr_page = 2, fr_subfigures = [], fr_split_attempted = False\<rparr>),
        (2, Some \<lparr>fr_path = ''data/images/raw_2.png'', fr_page = 10, fr_subfigures = [], fr_split_attempted = False\<rparr>),
        (3, Some \<lparr>fr_path = ''data/images/raw_1.png'', fr_page = 3, fr_subfigures = [], fr_split_attempted = False\<rparr>)]"
  by (simp add: match_figures_def py_min_def search_pages_def candidate_images_def large_images_def
        max_by_size_def new_record_def fallback_pass_def unmatched_large_images_def skip_taken.simps)




section \<open>Lazy subfigure splitting (agents/smart\_agent.py, agents/subfigure\_agent.py)\<close>

text \<open>
  The subfigure splitter is an external collaborator.  One call of
  \<^verbatim>\<open>self.splitter.split(...)\<close> either returns a dictionary of label and path, possibly
  empty, or raises an exception.
\<close>

datatype split_result = Returned "(string \<times> string) list" | Raised

text \<open>
  The effect of one call on the record: the two assignments after a call that returned,
  the assignment in the \<^verbatim>\<open>except\<close> branch after one that raised.
\<close>

definition after_split :: "split_result \<Rightarrow> figure_record \<Rightarrow> figure_record" where
  "after_split res fig_data =
     (case res of
        Returned subfigs \<Rightarrow> fig_data\<lparr>fr_subfigures := subfigs, fr_split_attempted := True\<rparr>
      | Raised \<Rightarrow> fig_data\<lparr>fr_split_attempted := True\<rparr>)"



text \<open>
  \<^verbatim>\<open>auto_split_all_figures\<close>: nothing when the splitter is not available; otherwise the
  first five entries of the figure map, each split unless it is \<^verbatim>\<open>None\<close> or already
  attempted.  \<open>res\<close> gives the outcome of the call for each figure number.  When the
  call returns an empty dictionary only the flag is set.
\<close>

definition auto_after_split :: "split_result \<Rightarrow> figure_record \<Rightarrow> figure_record" where
  "auto_after_split res fig_data =
     (case res of
        Returned subfigs \<Rightarrow>
          if subfigs \<noteq> [] then fig_data\<lparr>fr_subfigures := subfigs, fr_split_attempted := True\<rparr>
          else fig_data\<lparr>fr_split_attempted := True\<rparr>
      | Raised \<Rightarrow> fig_data\<lparr>fr_split_attempted := True\<rparr>)"









subsection \<open>Facts about the flag\<close>


lemma after_split_flag [simp]: "fr_split_attempted (after_split res r)"
  by (simp add: after_split_def split: split_result.splits)

lemma auto_after_split_flag [simp]: "fr_split_attempted (auto_after_split res r)"
  by (simp add: auto_after_split_def split: split_result.splits)


subsection \<open>One query\<close>




subsection \<open>One call of ensure\_subfigures\_split\<close>




subsection \<open>One automatic split\<close>












subsection \<open>Any consumer, any run\<close>














section \<open>Extracting the figures of the pages (parsers/pdf\_parser\_improved.py)\<close>

text \<open>
  What the rendering library supplies for a page.  An embedded image object answers
  \<^verbatim>\<open>page.get_image_rects(xref)\<close> with its rectangles and
  \<^verbatim>\<open>doc.extract_image(xref)\<close> with its bytes, of which the length is kept, and its
  format; \<open>None\<close> stands for a call that raises.  The page has its text, its image
  objects in the order of \<^verbatim>\<open>page.get_images(full=True)\<close>, its width and height, and
  \<^verbatim>\<open>page.get_pixmap(matrix, clip)\<close>, which gives the length of the PNG bytes of the
  clipped region or raises.
\<close>

record image_object =
  io_rects :: "rect list option"
  io_image :: "(nat \<times> string) option"

record page =
  pg_text :: ustr
  pg_images :: "image_object list"
  pg_width :: real
  pg_height :: real
  pg_pixmap :: "rect \<Rightarrow> nat option"
























subsection \<open>Facts about the pages of the figures\<close>
















subsection \<open>The parser raises nothing\<close>










subsection \<open>A page with two figures side by side\<close>









section \<open>Properties\<close>

text \<open>
  Claim C4.  For every list of rectangles \<open>R\<close> and every threshold \<open>t\<close>, no two
  rectangles at different positions of \<open>merge_nearby_bboxes R t\<close> are within distance
  \<open>t\<close> of each other (horizontal gap and vertical gap both at most \<open>t\<close>); one more
  scan of the output returns it unchanged and reports no change; and merging the output
  again with the same threshold returns it: the merge is idempotent.
\<close>

theorem merge_fixed_point:
  "(\<forall>i j. i < length (merge_nearby_bboxes R t) \<and> j < length (merge_nearby_bboxes R t) \<and> i \<noteq> j
      \<longrightarrow> \<not> within_distance t (merge_nearby_bboxes R t ! i) (merge_nearby_bboxes R t ! j))
   \<and> fst (merge_pass (merge_nearby_bboxes R t) t) = merge_nearby_bboxes R t
   \<and> \<not> snd (merge_pass (merge_nearby_bboxes R t) t)
   \<and> merge_nearby_bboxes (merge_nearby_bboxes R t) t = merge_nearby_bboxes R t"
proof -
  let ?M = "merge_nearby_bboxes R t"
  have a: "apart t ?M" by (rule merge_nearby_apart)
  have n: "\<not> is_nearby (?M ! i) (?M ! j) t" if "i < length ?M" "j < length ?M" "i \<noteq> j" for i j
  proof (cases "i < j")
    case True
    with a that show ?thesis by (simp add: sorted_wrt_iff_nth_less)
  next
    case False
    with that have "j < i" by simp
    with a that have "\<not> is_nearby (?M ! j) (?M ! i) t" by (simp add: sorted_wrt_iff_nth_less)
    then show ?thesis by (simp add: is_nearby_sym)
  qed
  have p: "pass_list ?M t = ?M" using a by (rule pass_list_id)
  show ?thesis using n p merge_nearby_id [OF a]
    by (simp add: merge_pass_eq is_nearby_gap [symmetric])
qed

theorem merge_fixed_point_witness:
  "length (merge_nearby_bboxes [ex_a, ex_b, ex_c] 35) = 3
   \<and> \<not> within_distance 35 (merge_nearby_bboxes [ex_a, ex_b, ex_c] 35 ! 0)
                            (merge_nearby_bboxes [ex_a, ex_b, ex_c] 35 ! 2)
   \<and> merge_nearby_bboxes (merge_nearby_bboxes [ex_a, ex_b, ex_c] 35) 35
       = merge_nearby_bboxes [ex_a, ex_b, ex_c] 35"
proof -
  let ?M = "merge_nearby_bboxes [ex_a, ex_b, ex_c] 35"
  have l: "length ?M = 3" by (simp add: merge_ex_35)
  have f: "(\<forall>i j. i < length ?M \<and> j < length ?M \<and> i \<noteq> j
              \<longrightarrow> \<not> within_distance 35 (?M ! i) (?M ! j))
           \<and> merge_nearby_bboxes ?M 35 = ?M"
    using merge_fixed_point [of "[ex_a, ex_b, ex_c]" 35] by blast
  then have "0 < length ?M \<and> 2 < length ?M \<and> (0::nat) \<noteq> 2
      \<longrightarrow> \<not> within_distance 35 (?M ! 0) (?M ! 2)" by blast
  with l f show ?thesis by simp
qed

text \<open>
  Claim C5.  The merge is monotone in the threshold: for thresholds \<open>t1 < t2\<close> the
  merge with \<open>t2\<close> returns at most as many rectangles as the merge with \<open>t1\<close>,
  for every list of rectangles.
\<close>

theorem merge_monotone:
  assumes "t1 < t2"
  shows "length (merge_nearby_bboxes R t2) \<le> length (merge_nearby_bboxes R t1)"
proof -
  let ?M = "merge_nearby_bboxes R t2"
  have "covers (mset ?M) ?M" by (rule covers_self)
  with merge_nearby_msteps [of t2 R] have "covers (mset R) ?M" by (rule covers_msteps_back)
  moreover have "apart t2 ?M" by (rule merge_nearby_apart)
  moreover from assms have "t1 \<le> t2" by simp
  ultimately have "covers (mset (merge_nearby_bboxes R t1)) ?M"
    by (rule covers_msteps_forw [OF merge_nearby_msteps])
  from covers_size [OF this] show ?thesis by simp
qed

theorem merge_monotone_witness:
  "(35::real) < 45
   \<and> length (merge_nearby_bboxes [ex_a, ex_b, ex_c] 45)
       \<le> length (merge_nearby_bboxes [ex_a, ex_b, ex_c] 35)"
proof -
  have h: "(35::real) < 45" by simp
  from h merge_monotone [OF h, of "[ex_a, ex_b, ex_c]"] show ?thesis by simp
qed

text \<open>
  Claim C6, as stated, fails in its second half: the members of a merged region need not
  be pairwise within the threshold.  With threshold 45 the three squares above end in one
  region, the second having joined the first and the third having joined their union, while
  the first and the third are 90 apart.
\<close>

theorem region_pairwise_gap_counterexample:
  "merge_regions [ex_a, ex_b, ex_c] 45 =
     [\<lparr>bounds = \<lparr>x0 = 0, y0 = 0, x1 = 110, y1 = 10\<rparr>, members = [ex_a, ex_b, ex_c]\<rparr>]
   \<and> h_gap ex_a ex_c = 90 \<and> \<not> within_distance 45 ex_a ex_c"
  by (simp add: merge_regions_ex_45)
     (simp add: within_distance_def h_gap_def ex_a_def ex_c_def)

text \<open>
  Claim C6, amended.  The regions of the merge carry the output rectangles of
  \<open>merge_nearby_bboxes\<close> as their bounds and share out the input rectangles among their
  members.  The bounds of every region are the minimal rectangle covering its members:
  what \<open>merge_bboxes_to_one\<close> computes from them, containing every member and contained
  in every rectangle that contains them all.  Every region is built from single input
  rectangles by joining two regions whose bounds were within the threshold of each other
  when they were joined; nothing bounds the gap between two members of a region.
\<close>

theorem merged_region_bounds:
  "map bounds (merge_regions R t) = merge_nearby_bboxes R t
   \<and> mset (concat (map members (merge_regions R t))) = mset R
   \<and> (\<forall>g\<in>set (merge_regions R t).
         built t g
       \<and> merge_bboxes_to_one (members g) = Inr (bounds g)
       \<and> (\<forall>m\<in>set (members g). inside m (bounds g))
       \<and> (\<forall>c. (\<forall>m\<in>set (members g). inside m c) \<longrightarrow> inside (bounds g) c))"
proof -
  have "built t g \<and> merge_bboxes_to_one (members g) = Inr (bounds g)
       \<and> (\<forall>m\<in>set (members g). inside m (bounds g))
       \<and> (\<forall>c. (\<forall>m\<in>set (members g). inside m c) \<longrightarrow> inside (bounds g) c)"
    if "g \<in> set (merge_regions R t)" for g
  proof -
    from that have b: "built t g" by (rule merge_regions_built)
    then have m: "merge_bboxes_to_one (members g) = Inr (bounds g)" by (rule built_bounds)
    from b m merge_bboxes_to_one_inside [OF m] merge_bboxes_to_one_least [OF m]
    show ?thesis by blast
  qed
  then show ?thesis by (simp add: merge_regions_bounds merge_regions_members)
qed

theorem merged_region_bounds_witness:
  "set (merge_regions [ex_a, ex_b, ex_c] 45) =
     {\<lparr>bounds = \<lparr>x0 = 0, y0 = 0, x1 = 110, y1 = 10\<rparr>, members = [ex_a, ex_b, ex_c]\<rparr>}
   \<and> inside ex_a \<lparr>x0 = 0, y0 = 0, x1 = 110, y1 = 10\<rparr>
   \<and> inside ex_b \<lparr>x0 = 0, y0 = 0, x1 = 110, y1 = 10\<rparr>
   \<and> inside ex_c \<lparr>x0 = 0, y0 = 0, x1 = 110, y1 = 10\<rparr>
   \<and> merge_bboxes_to_one [ex_a, ex_b, ex_c] = Inr \<lparr>x0 = 0, y0 = 0, x1 = 110, y1 = 10\<rparr>"
  using merged_region_bounds [of "[ex_a, ex_b, ex_c]" 45]
  by (simp add: merge_regions_ex_45)




text \<open>
  Claim C2.  After a complete matching pass over the images of a document (their ids are
  their positions, their paths are named after the ids) and any page texts, two different
  figure numbers are never bound to the same image: their records have different paths,
  and come from images at different positions, hence of different ids.
\<close>

theorem matcher_exclusive:
  assumes "load_pdf d texts figs = Inr fm" and "k \<noteq> k'"
    and "map_of fm k = Some (Some r)" and "map_of fm k' = Some (Some r')"
  shows "fr_path r \<noteq> fr_path r'
       \<and> (\<exists>i j. i < length figs \<and> j < length figs \<and> i \<noteq> j
              \<and> r = new_record (all_images_of d figs ! i) \<and> img_id (all_images_of d figs ! i) = i
              \<and> r' = new_record (all_images_of d figs ! j) \<and> img_id (all_images_of d figs ! j) = j)"
proof -
  let ?imgs = "all_images_of d figs"
  from assms(1) have m: "match_figures (collect_figure_pages (page_refs texts) []) ?imgs = Inr fm"
    by (simp add: load_pdf_def match_figures_intelligently_def match_page_refs_def)
  from match_figures_exclusive [OF all_images_distinct_paths m]
  have e: "exclusive fm" and f: "from_images ?imgs fm" by simp_all
  from e assms(2-4) have p: "fr_path r \<noteq> fr_path r'" unfolding exclusive_def by blast
  from f assms(3) obtain a where a: "a \<in> set ?imgs" "r = new_record a"
    unfolding from_images_def by blast
  from f assms(4) obtain b where b: "b \<in> set ?imgs" "r' = new_record b"
    unfolding from_images_def by blast
  from a(1) obtain i where i: "i < length figs" "a = ?imgs ! i" by (auto simp: in_set_conv_nth)
  from b(1) obtain j where j: "j < length figs" "b = ?imgs ! j" by (auto simp: in_set_conv_nth)
  from p a b i j have "i \<noteq> j" by auto
  moreover have "img_id (?imgs ! i) = i" "img_id (?imgs ! j) = j"
    using i(1) j(1) by (simp_all add: all_images_nth)
  ultimately have "i < length figs \<and> j < length figs \<and> i \<noteq> j
              \<and> r = new_record (?imgs ! i) \<and> img_id (?imgs ! i) = i
              \<and> r' = new_record (?imgs ! j) \<and> img_id (?imgs ! j) = j"
    using a b i j by simp
  then have "\<exists>i j. i < length figs \<and> j < length figs \<and> i \<noteq> j
              \<and> r = new_record (?imgs ! i) \<and> img_id (?imgs ! i) = i
              \<and> r' = new_record (?imgs ! j) \<and> img_id (?imgs ! j) = j" by blast
  with p show ?thesis ..
qed


theorem matcher_exclusive_witness:
  "load_pdf ''data/images'' ex_texts ex_figs =
     Inr [(1, Some \<lparr>fr_path = ''data/images/raw_0.png'', fr_page = 2, fr_subfigures = [],
                      fr_split_attempted = False\<rparr>),
          (2, Some \<lparr>fr_path = ''data/images/raw_2.png'', fr_page = 10, fr_subfigures = [],
                      fr_split_attempted = False\<rparr>),
          (3, Some \<lparr>fr_path = ''data/images/raw_1.png'', fr_page = 3, fr_subfigures = [],
                      fr_split_attempted = False\<rparr>)]
   \<and> ''data/images/raw_0.png'' \<noteq> ''data/images/raw_2.png''"
proof -
  let ?r1 = "\<lparr>fr_path = ''data/images/raw_0.png'', fr_page = 2, fr_subfigures = [],
              fr_split_attempted = False\<rparr>"
  let ?r2 = "\<lparr>fr_path = ''data/images/raw_2.png'', fr_page = 10, fr_subfigures = [],
              fr_split_attempted = False\<rparr>"
  let ?r3 = "\<lparr>fr_path = ''data/images/raw_1.png'', fr_page = 3, fr_subfigures = [],
              fr_split_attempted = False\<rparr>"
  let ?fm = "[(1, Some ?r1), (2, Some ?r2), (3, Some ?r3)] :: figure_map"
  have l: "load_pdf ''data/images'' ex_texts ex_figs = Inr ?fm"
    by (simp only: load_pdf_def match_figures_intelligently_def match_page_refs_def page_refs_ex
        ev_fp ev0 ev1)
  have n: "(1::nat) \<noteq> 2" by simp
  have a: "map_of ?fm 1 = Some (Some ?r1)" by simp
  have b: "map_of ?fm 2 = Some (Some ?r2)" by simp
  from matcher_exclusive [OF l n a b] have "fr_path ?r1 \<noteq> fr_path ?r2" by (rule conjunct1)
  with l show ?thesis by simp
qed

text \<open>
  Claim C9.  When the turn of a cited figure number \<open>n\<close> comes (the smaller cited numbers
  have been processed, leaving the map \<open>fm0\<close> and the used ids \<open>used0\<close>) and no unused
  image lies on the pages of its window, the loop only stores \<^verbatim>\<open>None\<close> for \<open>n\<close>,
  uses no image and goes on with the next number; the whole pass returns a map, raising
  nothing, and in this map \<open>n\<close> has the entry \<^verbatim>\<open>None\<close>: no record.  (The source
  prints a line for the miss; printing is not modelled.)
\<close>

theorem unmatched_is_none:
  fixes texts imgs n
  defines "fp \<equiv> collect_figure_pages (page_refs texts) []"
  assumes cited: "map_of fp n = Some pages"
    and before: "primary_loop fp imgs (filter (\<lambda>k. k < n) (sort (map fst fp))) ([], {}) = Inr (fm0, used0)"
    and empty: "candidate_images imgs (search_pages (Min (set pages))) used0 = []"
  shows "primary_loop fp imgs (n # filter (\<lambda>k. n < k) (sort (map fst fp))) (fm0, used0)
           = primary_loop fp imgs (filter (\<lambda>k. n < k) (sort (map fst fp))) (AList.update n None fm0, used0)
       \<and> (\<exists>fm. match_figures_intelligently texts imgs = Inr fm \<and> map_of fm n = Some None)"
proof -
  let ?ks = "sort (map fst fp)"
  let ?lo = "filter (\<lambda>k. k < n) ?ks" and ?hi = "filter (\<lambda>k. n < k) ?ks"
  have ok: "pages_ok fp" unfolding fp_def by (rule collect_ok_empty)
  then have ne: "pages \<noteq> []" using cited by (auto simp: pages_ok_def)
  have step: "primary_loop fp imgs (n # ?hi) (fm0, used0)
                = primary_loop fp imgs ?hi (AList.update n None fm0, used0)"
    using cited ne empty by (simp add: py_min_def)
  from ok have "distinct ?ks" by (simp add: pages_ok_def)
  moreover have "n \<in> set ?ks"
  proof -
    from cited have "(n, pages) \<in> set fp" by (rule map_of_SomeD)
    then have "n \<in> fst ` set fp" by force
    then show ?thesis by simp
  qed
  ultimately have split: "?ks = ?lo @ n # ?hi" by (intro sorted_distinct_split) simp_all
  from match_page_refs_total [of "page_refs texts" imgs] obtain fm where
    fm: "match_figures_intelligently texts imgs = Inr fm"
    unfolding match_figures_intelligently_def ..
  then obtain fm1 used1 where
    p: "primary_loop fp imgs ?ks ([], {}) = Inr (fm1, used1)"
    and r: "fm = fst (fallback_pass imgs (fm1, used1))"
    by (auto simp: match_figures_intelligently_def match_page_refs_def match_figures_def fp_def
             split: sum.splits)
  from p have "primary_loop fp imgs (?lo @ n # ?hi) ([], {}) = Inr (fm1, used1)"
    using split by simp
  with before step have hi: "primary_loop fp imgs ?hi (AList.update n None fm0, used0) = Inr (fm1, used1)"
    by (simp add: primary_loop_append)
  have "n \<notin> set ?hi" by simp
  from primary_loop_other [OF hi this] have e1: "map_of fm1 n = Some None"
    by (simp add: update_conv')
  from primary_loop_keys [OF hi] have "n \<in> fst ` set fm1" by (simp add: dom_update)
  from fallback_pass_keeps [OF this, of imgs used1] r e1 have "map_of fm n = Some None" by simp
  with fm step show ?thesis by blast
qed


theorem unmatched_is_none_witness:
  "\<exists>fm. match_figures_intelligently ex_texts_far (all_images_of ''data/images'' ex_figs) = Inr fm
      \<and> map_of fm 5 = Some None"
proof -
  let ?texts = "page_refs ex_texts_far"
  let ?imgs = "all_images_of ''data/images'' ex_figs"
  let ?fm0 = "[(1, Some \<lparr>fr_path = ''data/images/raw_0.png'', fr_page = 2, fr_subfigures = [],
                      fr_split_attempted = False\<rparr>)] :: figure_map"
  have fp: "collect_figure_pages ?texts [] = [(1, [3]), (5, [20])]"
    unfolding page_refs_ex_far by (simp add: add_page_def)
  have cited: "map_of (collect_figure_pages ?texts []) 5 = Some [20]" unfolding fp by simp
  have before: "primary_loop (collect_figure_pages ?texts []) ?imgs
      (filter (\<lambda>k. k < 5) (sort (map fst (collect_figure_pages ?texts [])))) ([], {}) = Inr (?fm0, {0})"
    unfolding fp ev0
    by (simp add: py_min_def search_pages_def candidate_images_def large_images_def
        max_by_size_def new_record_def)
  have empty: "candidate_images ?imgs (search_pages (Min (set [20]))) {0} = []"
    unfolding ev0 by (simp add: search_pages_def candidate_images_def)
  from unmatched_is_none [OF cited before empty] show ?thesis by (rule conjunct2)
qed




text \<open>
  Claim C3, as stated, fails: a text that contains \<open>Figure 3a\<close> can have a second citation
  for figure 3.  In \<open>Figure 3a Figure 3\<close> the second mention has no letter, and the bare
  citation of figure 3 is returned after the citation of the subfigure.
\<close>

theorem figure_3a_counterexample:
  "extract_references (codes ''Figure 3a Figure 3'') =
     [\<lparr>ref_text = codes ''Figure 3a '', ref_figure = 3, ref_subfigure = Some (codes ''a''),
       ref_start = 0, ref_end = 10\<rparr>,
      \<lparr>ref_text = codes ''Figure 3'', ref_figure = 3, ref_subfigure = None,
       ref_start = 10, ref_end = 18\<rparr>]"
  by (rule refs_figure_3a_and_3)

text \<open>
  Claim C3, amended.  For the text \<open>Figure 3a\<close>, and for the text that repeats it,
  \<open>extract_references\<close> returns exactly one citation, the subfigure citation of figure 3
  with the label \<open>a\<close>, and no bare citation of figure 3.  For every text the returned
  list has no two citations with the same figure number and label, is ordered by the
  position of the match, and consists of matches of the patterns; for each key it keeps
  the first match in the order of positions (among matches at one position, that of the
  earlier pattern), which starts no later than any other match of the key.
\<close>

theorem extract_references_dedup:
  "extract_references (codes ''Figure 3a'') =
     [\<lparr>ref_text = codes ''Figure 3a'', ref_figure = 3, ref_subfigure = Some (codes ''a''),
       ref_start = 0, ref_end = 9\<rparr>]
   \<and> extract_references (codes ''Figure 3a Figure 3a'') =
     [\<lparr>ref_text = codes ''Figure 3a '', ref_figure = 3, ref_subfigure = Some (codes ''a''),
       ref_start = 0, ref_end = 10\<rparr>]
   \<and> distinct (map ref_key (extract_references s))
   \<and> sorted (map ref_start (extract_references s))
   \<and> set (extract_references s) \<subseteq> set (all_references s)
   \<and> (\<forall>r. r \<in> set (extract_references s) \<longleftrightarrow>
          find (\<lambda>x. ref_key x = ref_key r) (sort_key ref_start (all_references s)) = Some r)
   \<and> (\<forall>r\<in>set (all_references s).
          \<exists>u\<in>set (extract_references s). ref_key u = ref_key r \<and> ref_start u \<le> ref_start r)"
proof -
  have "r \<in> set (extract_references s) \<longleftrightarrow>
          find (\<lambda>x. ref_key x = ref_key r) (sort_key ref_start (all_references s)) = Some r" for r
    unfolding extract_references_def by (simp add: unique_refs_first)
  with refs_figure_3a refs_figure_3a_twice extract_references_distinct [of s]
    extract_references_sorted [of s] extract_references_subset [of s]
    extract_references_earliest [of _ s]
  show ?thesis by blast
qed

theorem extract_references_dedup_witness:
  "all_references (codes ''Figure 3a'') \<noteq> []
   \<and> distinct (map ref_key (extract_references (codes ''Figure 3a'')))
   \<and> sorted (map ref_start (extract_references (codes ''Figure 3a'')))
   \<and> extract_references (codes ''Figure 3a'') =
     [\<lparr>ref_text = codes ''Figure 3a'', ref_figure = 3, ref_subfigure = Some (codes ''a''),
       ref_start = 0, ref_end = 9\<rparr>]"
proof -
  have "all_references (codes ''Figure 3a'') \<noteq> []"
    using extract_references_subset [of "codes ''Figure 3a''"] by (auto simp: refs_figure_3a)
  with extract_references_dedup [of "codes ''Figure 3a''"] show ?thesis by blast
qed

text \<open>
  Claim C10, as stated, fails at its example: for the page text \<open>Figure 3. The\<close> the
  bare citation of figure 3 is returned as well, second in the list, since the patterns
  without subfigure match \<open>Figure 3\<close> in front of the full stop.
\<close>

theorem uppercase_label_counterexample:
  "length (extract_references (codes ''Figure 3. The'')) = 2
   \<and> extract_references (codes ''Figure 3. The'') ! 1 =
       \<lparr>ref_text = codes ''Figure 3'', ref_figure = 3, ref_subfigure = None,
        ref_start = 0, ref_end = 8\<rparr>"
  by (simp add: refs_figure_3_The)

text \<open>
  Claim C10, amended.  Every pattern is applied without regard to case, so the group of
  the subfigure letter also takes an upper-case letter of the prose that follows.  For the
  page text \<open>Figure 3. The\<close>, \<open>extract_references\<close> returns a subfigure citation of
  figure 3 with the label \<open>T\<close>, the first letter of the next word, and after it the bare
  citation of figure 3; for \<open>Figure 3 The\<close>, without the full stop, it returns the
  subfigure citation with the label \<open>T\<close> instead of a bare citation.
\<close>

theorem uppercase_label:
  "extract_references (codes ''Figure 3. The'') =
     [\<lparr>ref_text = codes ''Figure 3. T'', ref_figure = 3, ref_subfigure = Some (codes ''T''),
       ref_start = 0, ref_end = 11\<rparr>,
      \<lparr>ref_text = codes ''Figure 3'', ref_figure = 3, ref_subfigure = None,
       ref_start = 0, ref_end = 8\<rparr>]
   \<and> extract_references (codes ''Figure 3 The'') =
     [\<lparr>ref_text = codes ''Figure 3 T'', ref_figure = 3, ref_subfigure = Some (codes ''T''),
       ref_start = 0, ref_end = 10\<rparr>]"
  using refs_figure_3_The refs_figure_3_The_no_stop by (rule conjI)




end
